theory Spec2Isabelle
  imports Complex_Main
begin

section \<open>Data model (lib/utils.ts, components/MapMaker.tsx)\<close>

text \<open>
  A \<open>Coord\<close> is the pair of its \<open>x\<close> and \<open>y\<close> fields (JavaScript numbers that only
  ever hold integers here). A \<open>Node\<close> is a coordinate with its two costs and the optional
  reference to its parent node; node objects are never mutated after creation, so the
  reference is modelled by the value.
\<close>

type_synonym Coord = "int \<times> int"

datatype Node = Node (node_x: int) (node_y: int) (gCost: int) (hCost: int) (parent: "Node option")

text \<open>
  The React state of \<open>MapMaker\<close> that the search reads or writes. The fields for the
  mouse interaction, the animation speed and the styling are left out: the search with
  \<open>instant\<close> switched off only yields to the event loop between iterations.
\<close>

record State =
  width :: int
  height :: int
  start :: Coord
  end' :: Coord
  walls :: "Coord list"
  openNodes :: "Node list"
  closedNodes :: "Node list"
  nodePath :: "Coord list"
  diagonalMovement :: bool
  iterations :: nat
  distance :: int

definition D :: int where
  "D = 10"

text \<open>\<open>Math.round\<close> is \<open>floor (x + 1/2)\<close>, which is \<^const>\<open>round\<close>.\<close>

definition D2 :: int where
  "D2 = round (sqrt (real_of_int (D ^ 2 + D ^ 2)))"

section \<open>The search (components/MapMaker.tsx)\<close>

definition reset :: "State \<Rightarrow> State" where
  "reset s = s\<lparr>openNodes := [], closedNodes := [], nodePath := []\<rparr>"

definition isWallTile :: "State \<Rightarrow> int \<Rightarrow> int \<Rightarrow> bool" where
  "isWallTile s x y = list_ex (\<lambda>wall. fst wall = x \<and> snd wall = y) (walls s)"

definition isClosedNode :: "Coord \<Rightarrow> Node list \<Rightarrow> bool" where
  "isClosedNode node closedNodesLocal =
     list_ex (\<lambda>closedNode. node_x closedNode = fst node \<and> node_y closedNode = snd node)
       closedNodesLocal"

definition straight :: "Coord list" where
  "straight = [(-1, 0), (0, 1), (1, 0), (0, -1)]"

definition diagonal :: "Coord list" where
  "diagonal = [(-1, 1), (-1, -1), (1, 1), (1, -1)]"

definition getValidNeighbors :: "State \<Rightarrow> Node \<Rightarrow> Node list \<Rightarrow> Coord list" where
  "getValidNeighbors s node closedNodesLocal =
     (let directions = (if diagonalMovement s then straight @ diagonal else straight)
      in filter
           (\<lambda>neighbor.
              let withinBounds = (fst neighbor \<ge> 0 \<and> fst neighbor < width s
                                   \<and> snd neighbor \<ge> 0 \<and> snd neighbor < height s);
                  notWall = (\<not> isWallTile s (fst neighbor) (snd neighbor));
                  notClosed = (\<not> isClosedNode neighbor closedNodesLocal)
              in withinBounds \<and> notWall \<and> notClosed)
           (map (\<lambda>direction. (fst direction + node_x node, snd direction + node_y node))
              directions))"

definition getDiagonalDistance :: "State \<Rightarrow> Coord \<Rightarrow> int" where
  "getDiagonalDistance s node =
     (let dx = \<bar>fst node - fst (end' s)\<bar>;
          dy = \<bar>snd node - snd (end' s)\<bar>
      in D * (dx + dy) + (D2 - 2 * D) * min dx dy)"

definition getManhattanDistance :: "State \<Rightarrow> Coord \<Rightarrow> int" where
  "getManhattanDistance s node =
     (let dx = \<bar>fst node - fst (end' s)\<bar>;
          dy = \<bar>snd node - snd (end' s)\<bar>
      in D * (dx + dy))"

text \<open>
  \<open>Array.prototype.findIndex\<close>: the first index whose element satisfies the predicate;
  JavaScript's \<open>-1\<close> is \<open>None\<close>.
\<close>

primrec findIndex :: "('a \<Rightarrow> bool) \<Rightarrow> 'a list \<Rightarrow> nat option" where
  "findIndex p [] = None"
| "findIndex p (a # as) =
     (if p a then Some 0 else (case findIndex p as of None \<Rightarrow> None | Some i \<Rightarrow> Some (Suc i)))"

text \<open>
  The callback of the \<open>reduce\<close> that picks the node to expand, and the \<open>reduce\<close>
  itself on a non-empty array: no initial value, so the first element starts as
  \<open>minItem\<close> and the callback runs on the others from left to right.
\<close>

definition leastF :: "Node \<Rightarrow> Node \<Rightarrow> Node" where
  "leastF minItem currentItem =
     (if gCost currentItem + hCost currentItem \<le> gCost minItem + hCost minItem
      then currentItem else minItem)"

definition reduceLeastF :: "Node \<Rightarrow> Node list \<Rightarrow> Node" where
  "reduceLeastF first others = foldl leastF first others"

text \<open>The body of the loop over the neighbours of the expanded node.\<close>

definition relax :: "State \<Rightarrow> Node \<Rightarrow> Node list \<Rightarrow> Coord \<Rightarrow> Node list" where
  "relax s currentNode openNodesLocal neighbor =
     (let gCost' = gCost currentNode
            + (if fst neighbor \<noteq> node_x currentNode \<and> snd neighbor \<noteq> node_y currentNode
               then D2 else D);
          hCost' = (if diagonalMovement s then getDiagonalDistance s neighbor
                    else getManhattanDistance s neighbor);
          openNodeIndex =
            findIndex (\<lambda>node. node_x node = fst neighbor \<and> node_y node = snd neighbor)
              openNodesLocal;
          updatedNeighbor = Node (fst neighbor) (snd neighbor) gCost' hCost' (Some currentNode)
      in case openNodeIndex of
           None \<Rightarrow> openNodesLocal @ [updatedNeighbor]
         | Some i \<Rightarrow>
             if gCost' \<le> gCost (openNodesLocal ! i)
             then openNodesLocal[i := updatedNeighbor]
             else openNodesLocal)"

definition sameCoord :: "Node \<Rightarrow> Node \<Rightarrow> bool" where
  "sameCoord node currentNode = (node_x node = node_x currentNode \<and> node_y node = node_y currentNode)"

definition coordOf :: "Node \<Rightarrow> Coord" where
  "coordOf node = (node_x node, node_y node)"

text \<open>
  One pass of the \<open>while\<close> loop up to the \<open>break\<close> test: the node picked, the open
  array without its coordinate, the closed array with it pushed.
\<close>

definition popLeast :: "Node \<Rightarrow> Node list \<Rightarrow> Node \<times> Node list" where
  "popLeast first others =
     (let currentNode = reduceLeastF first others
      in (currentNode, filter (\<lambda>node. \<not> sameCoord node currentNode) (first # others)))"

definition free :: "State \<Rightarrow> Coord set" where
  "free s = {c. 0 \<le> fst c \<and> fst c < width s \<and> 0 \<le> snd c \<and> snd c < height s
               \<and> \<not> isWallTile s (fst c) (snd c)}"

lemma finite_free: "finite (free s)"
proof -
  have "free s \<subseteq> {0..<width s} \<times> {0..<height s}"
    by (auto simp: free_def)
  then show ?thesis
    by (rule finite_subset) simp
qed

lemma reduceLeastF_mem: "reduceLeastF first others \<in> set (first # others)"
  unfolding reduceLeastF_def
  by (induction others arbitrary: first) (auto simp: leastF_def split: if_splits)

lemma findIndex_None: "findIndex p as = None \<longleftrightarrow> (\<forall>a \<in> set as. \<not> p a)"
  by (induction as) (auto split: option.splits)

lemma findIndex_Some:
  "findIndex p as = Some i \<Longrightarrow> i < length as \<and> p (as ! i) \<and> (\<forall>j < i. \<not> p (as ! j))"
proof (induction as arbitrary: i)
  case Nil
  then show ?case by simp
next
  case (Cons a as)
  show ?case
  proof (cases "p a")
    case True
    with Cons.prems show ?thesis by simp
  next
    case False
    with Cons.prems obtain k where k: "findIndex p as = Some k" "i = Suc k"
      by (auto split: option.splits)
    from Cons.IH[OF k(1)] False k(2) show ?thesis
      by (auto simp: less_Suc_eq_0_disj)
  qed
qed

lemma coords_relax:
  "coordOf ` set (relax s cur ns nb) \<subseteq> insert nb (coordOf ` set ns)"
proof -
  have "\<exists>g h. relax s cur ns nb = ns @ [Node (fst nb) (snd nb) g h (Some cur)]
      \<or> (\<exists>i. relax s cur ns nb = ns[i := Node (fst nb) (snd nb) g h (Some cur)])
      \<or> relax s cur ns nb = ns"
    by (cases "findIndex (\<lambda>node. node_x node = fst nb \<and> node_y node = snd nb) ns")
      (auto simp: relax_def Let_def)
  then obtain g h where r: "relax s cur ns nb = ns @ [Node (fst nb) (snd nb) g h (Some cur)]
      \<or> (\<exists>i. relax s cur ns nb = ns[i := Node (fst nb) (snd nb) g h (Some cur)])
      \<or> relax s cur ns nb = ns"
    by blast
  have upd: "set (ns[i := v]) \<subseteq> insert v (set ns)" for v :: Node and i
    by (rule set_update_subset_insert)
  have c: "coordOf (Node (fst nb) (snd nb) g h (Some cur)) = nb"
    by (simp add: coordOf_def)
  from r show ?thesis
  proof (elim disjE exE)
    assume "relax s cur ns nb = ns @ [Node (fst nb) (snd nb) g h (Some cur)]"
    then show ?thesis using c by auto
  next
    fix i assume "relax s cur ns nb = ns[i := Node (fst nb) (snd nb) g h (Some cur)]"
    then show ?thesis using c upd[of i "Node (fst nb) (snd nb) g h (Some cur)"] by auto
  next
    assume "relax s cur ns nb = ns"
    then show ?thesis by auto
  qed
qed

lemma coords_foldl_relax:
  "coordOf ` set (foldl (relax s cur) ns nbs) \<subseteq> set nbs \<union> coordOf ` set ns"
proof (induction nbs arbitrary: ns)
  case Nil
  then show ?case by simp
next
  case (Cons nb nbs)
  from Cons.IH[of "relax s cur ns nb"] coords_relax[of s cur ns nb]
  show ?case by auto
qed

lemma getValidNeighbors_free:
  "set (getValidNeighbors s node cls) \<subseteq> free s - coordOf ` set cls"
  by (auto simp: getValidNeighbors_def Let_def free_def isClosedNode_def list_ex_iff coordOf_def)

text \<open>
  The \<open>while\<close> loop of \<open>startPathFind\<close>. Its state is the two local arrays, the
  counter and the value last passed to \<open>setOpenNodes\<close>; the result is that state when the
  loop is left, by the empty open array or by the \<open>break\<close>.
\<close>

function astarLoop ::
  "State \<Rightarrow> Node list \<Rightarrow> Node list \<Rightarrow> nat \<Rightarrow> Node list
     \<Rightarrow> Node list \<times> Node list \<times> nat \<times> Node list" where
  "astarLoop s [] closedNodesLocal count openSet = ([], closedNodesLocal, count, openSet)"
| "astarLoop s (first # others) closedNodesLocal count openSet =
     (let currentNode = fst (popLeast first others);
          openNodesLocal = snd (popLeast first others);
          closedNodesLocal' = closedNodesLocal @ [currentNode]
      in if node_x currentNode = fst (end' s) \<and> node_y currentNode = snd (end' s)
         then (openNodesLocal, closedNodesLocal', count, openSet)
         else
           (let neighbors = getValidNeighbors s currentNode closedNodesLocal';
                openNodesLocal' = foldl (relax s currentNode) openNodesLocal neighbors
            in astarLoop s openNodesLocal' closedNodesLocal' (count + 1) openNodesLocal'))"
  by pat_completeness auto

definition pending :: "State \<Rightarrow> Node list \<Rightarrow> Node list \<Rightarrow> Coord set" where
  "pending s openNodesLocal closedNodesLocal =
     (free s - coordOf ` set closedNodesLocal) \<union> coordOf ` set openNodesLocal"

lemma pending_step:
  assumes "cur = fst (popLeast first others)" "open1 = snd (popLeast first others)"
  shows "pending s (foldl (relax s cur) open1 (getValidNeighbors s cur (cls @ [cur])))
           (cls @ [cur]) \<subseteq> pending s (first # others) cls - {coordOf cur}"
proof -
  have open1: "coordOf ` set open1 \<subseteq> coordOf ` set (first # others) - {coordOf cur}"
    using assms by (auto simp: popLeast_def Let_def sameCoord_def coordOf_def)
  have nbs: "set (getValidNeighbors s cur (cls @ [cur]))
               \<subseteq> free s - coordOf ` set (cls @ [cur])"
    by (rule getValidNeighbors_free)
  have fold: "coordOf ` set (foldl (relax s cur) open1 (getValidNeighbors s cur (cls @ [cur])))
               \<subseteq> set (getValidNeighbors s cur (cls @ [cur])) \<union> coordOf ` set open1"
    by (rule coords_foldl_relax)
  have cl: "coordOf ` set (cls @ [cur]) = insert (coordOf cur) (coordOf ` set cls)"
    by simp
  show ?thesis
    unfolding pending_def cl using open1 nbs[unfolded cl] fold by blast
qed

lemma popLeast_mem: "fst (popLeast first others) \<in> set (first # others)"
  using reduceLeastF_mem[of first others] by (simp add: popLeast_def Let_def)

termination astarLoop
proof (relation "measure (\<lambda>(s, openNodesLocal, closedNodesLocal, count, openSet).
                    card (pending s openNodesLocal closedNodesLocal))")
  show "wf (measure (\<lambda>(s, openNodesLocal, closedNodesLocal, count, openSet).
                    card (pending s openNodesLocal closedNodesLocal)))"
    by simp
next
  fix s :: State and first :: Node and others cls :: "Node list" and count :: nat
    and openSet :: "Node list" and cur open1 closed1 nbs open2
  assume a: "cur = fst (popLeast first others)" "open1 = snd (popLeast first others)"
    "closed1 = cls @ [cur]"
    "nbs = getValidNeighbors s cur closed1" "open2 = foldl (relax s cur) open1 nbs"
  have fin: "finite (pending s (first # others) cls)"
    by (simp add: pending_def finite_free)
  have mem: "coordOf cur \<in> pending s (first # others) cls"
    using popLeast_mem[of first others] a(1) unfolding pending_def by blast
  have "pending s open2 closed1 \<subseteq> pending s (first # others) cls - {coordOf cur}"
    using pending_step[OF a(1) a(2), of s cls] a by simp
  then have "card (pending s open2 closed1) \<le> card (pending s (first # others) cls - {coordOf cur})"
    using fin by (intro card_mono) auto
  also have "\<dots> < card (pending s (first # others) cls)"
    using fin mem by (intro card_Diff1_less)
  finally show "((s, open2, closed1, count + 1, open2), s, first # others, cls, count, openSet)
        \<in> measure (\<lambda>(s, openNodesLocal, closedNodesLocal, count, openSet).
                    card (pending s openNodesLocal closedNodesLocal))"
    by simp
qed

declare astarLoop.simps [simp del]

text \<open>
  The \<open>while (current)\<close> loop that follows the parent references from a node: the
  coordinates in the order they are pushed, the node's own first.
\<close>

fun tracePath :: "Node \<Rightarrow> Coord list" where
  "tracePath (Node x y g h p) = (x, y) # (case p of None \<Rightarrow> [] | Some q \<Rightarrow> tracePath q)"

text \<open>
  \<open>startPathFind\<close>, from the state of the component to its state once every update
  is applied. \<open>start\<close> and \<open>end\<close> are always objects, so the guard \<open>if (start && end)\<close>
  is passed. \<open>setClosedNodes\<close> is given the local array itself, which the loop goes on
  pushing to: once it has been called (\<open>count > 0\<close>) the state holds the array as it is
  at the end. \<open>setDistance\<close> is only called when the end node is found in the closed
  array, and \<open>reset\<close> does not touch \<open>distance\<close>.
\<close>

definition startNode :: "State \<Rightarrow> Node" where
  "startNode s =
     Node (fst (start s)) (snd (start s)) 0
       (if diagonalMovement s then getDiagonalDistance s (start s)
        else getManhattanDistance s (start s)) None"

definition startPathFind :: "State \<Rightarrow> State" where
  "startPathFind s =
     (let s0 = reset s;
          r = astarLoop s [startNode s] [] 0 (openNodes s0);
          closedNodesLocal = fst (snd r);
          count = fst (snd (snd r));
          current = find (\<lambda>node. node_x node = fst (end' s) \<and> node_y node = snd (end' s))
                      closedNodesLocal;
          path = (case current of None \<Rightarrow> [] | Some c \<Rightarrow> tracePath c)
      in s0\<lparr>openNodes := snd (snd (snd r)),
            closedNodes := (if count = 0 then closedNodes s0 else closedNodesLocal),
            distance := (case current of None \<Rightarrow> distance s0 | Some c \<Rightarrow> gCost c),
            nodePath := rev path,
            iterations := count\<rparr>)"

lemma D2_eq [code]: "D2 = 14"
proof -
  have lo: "27 / 2 \<le> sqrt 200"
    by (rule real_le_rsqrt) (simp add: power2_eq_square)
  have hi: "sqrt 200 < 29 / 2"
    by (rule real_less_lsqrt) (simp_all add: power2_eq_square)
  have "round (sqrt 200) = (14::int)"
    unfolding round_def using lo hi by (intro floor_unique) simp_all
  then show ?thesis
    by (simp add: D2_def D_def)
qed

section \<open>The maze generator (lib/utils.ts)\<close>

text \<open>
  The grid is an array of \<open>width\<close> rows (indexed by \<open>x\<close>) of \<open>height\<close> booleans
  (indexed by \<open>y\<close>); \<open>true\<close> is a passage.
\<close>

type_synonym Grid = "bool list list"

text \<open>The exceptions the JavaScript runtime raises in \<open>mazePrimsAlgorithm\<close>.\<close>

datatype JsError = TypeError | RangeError

record MazeResult =
  finalWallList :: "Coord list"
  mazeStart :: Coord
  mazeEnd :: Coord

text \<open>
  The truth value of \<open>grid[x][y]\<close>, for a row \<open>grid[x]\<close> that exists: an index past the
  row (or a negative one) reads \<open>undefined\<close>, which is falsy.
\<close>

definition cellAt :: "Grid \<Rightarrow> Coord \<Rightarrow> bool" where
  "cellAt grid c =
     (0 \<le> fst c \<and> fst c < int (length grid) \<and> 0 \<le> snd c
      \<and> snd c < int (length (grid ! nat (fst c))) \<and> grid ! nat (fst c) ! nat (snd c))"

text \<open>
  \<open>grid[x][y] = true\<close>, for a row \<open>grid[x]\<close> that exists and \<open>y \<ge> 0\<close>: an index past the
  end extends the row, the holes reading \<open>undefined\<close>.
\<close>

definition setCell :: "Grid \<Rightarrow> Coord \<Rightarrow> Grid" where
  "setCell grid c =
     (let row = grid ! nat (fst c);
          j = nat (snd c)
      in grid[nat (fst c) :=
           (if j < length row then row[j := True]
            else row @ replicate (j - length row) False @ [True])])"

text \<open>
  \<open>Math.floor(Math.random() * n)\<close>. The calls of \<open>Math.random\<close> are numbered as they are
  made and the \<open>k\<close>-th is given by a natural number \<open>rng k\<close>: for \<open>n > 0\<close> the result is
  \<open>rng k mod n\<close>, so that each index below \<open>n\<close> and no other can come out; for \<open>n = 0\<close>
  it is \<open>0\<close>. For \<open>n < 0\<close> the result is never used (the call fails whatever it is).
\<close>

definition randomIndex :: "nat \<Rightarrow> int \<Rightarrow> int" where
  "randomIndex r n = (if n \<le> 0 then 0 else int r mod n)"

definition directions :: "Coord list" where
  "directions = [(-1, 0), (0, 1), (1, 0), (0, -1)]"

definition getCells :: "int \<Rightarrow> int \<Rightarrow> Coord \<Rightarrow> Coord list" where
  "getCells w h coord =
     filter (\<lambda>coord. fst coord \<ge> 0 \<and> snd coord \<ge> 0 \<and> fst coord < w \<and> snd coord < h)
       (map (\<lambda>direction. (fst direction + fst coord, snd direction + snd coord)) directions)"

text \<open>One pass of the \<open>while\<close> loop, on the grid and the wall list.\<close>

definition mazeStep :: "int \<Rightarrow> int \<Rightarrow> nat \<Rightarrow> Grid \<times> Coord list \<Rightarrow> Grid \<times> Coord list" where
  "mazeStep w h r st =
     (let grid = fst st;
          wallList = snd st;
          randomWallIndex = nat (randomIndex r (int (length wallList)));
          randomWall = wallList ! randomWallIndex;
          wallSurroundings = getCells w h randomWall;
          count = length (filter (cellAt grid) wallSurroundings);
          grid' = (if count = 1 then setCell grid randomWall else grid);
          wallList' = (if count = 1
                       then wallList @ filter (\<lambda>cell. \<not> cellAt grid' cell) wallSurroundings
                       else wallList)
      in (grid', take randomWallIndex wallList' @ drop (randomWallIndex + 1) wallList'))"

text \<open>
  The \<open>while\<close> loop; \<open>k\<close> numbers the next call of \<open>Math.random\<close>. \<open>None\<close> stands for
  a loop that does not end.
\<close>

partial_function (option) mazeLoop ::
  "int \<Rightarrow> int \<Rightarrow> (nat \<Rightarrow> nat) \<Rightarrow> nat \<Rightarrow> Grid \<times> Coord list \<Rightarrow> Grid option" where
  "mazeLoop w h rng k st =
     (if length (snd st) > 0 then mazeLoop w h rng (k + 1) (mazeStep w h (rng k) st)
      else Some (fst st))"

declare mazeLoop.simps [code]

text \<open>The two nested loops that fill \<open>finalWallList\<close>.\<close>

definition collectWalls :: "Grid \<Rightarrow> Coord list" where
  "collectWalls grid =
     concat (map (\<lambda>i. map (\<lambda>j. (int i, int j))
                         (filter (\<lambda>j. \<not> cellAt grid (int i, int j)) [0..<length (grid ! 0)]))
               [0..<length grid])"

text \<open>
  The last loop, from index \<open>i\<close> on, with its four variables; the bound is
  \<open>grid.length\<close>, and \<open>h\<close> is the parameter \<open>height\<close>.
\<close>

function findStartEnd ::
  "Grid \<Rightarrow> int \<Rightarrow> nat \<Rightarrow> Coord \<times> Coord \<times> bool \<times> bool \<Rightarrow> Coord \<times> Coord \<times> bool \<times> bool" where
  "findStartEnd grid h i (startC, endC, startFound, endFound) =
     (if i < length grid then
        (if \<not> (startFound \<and> endFound) then
           findStartEnd grid h (i + 1)
             (if cellAt grid (0, int i) \<and> \<not> startFound then (0, int i) else startC,
              if cellAt grid (int (length grid) - 1 - int i, h - 1) \<and> \<not> endFound
              then (int (length grid) - 1 - int i, h - 1) else endC,
              if cellAt grid (0, int i) \<and> \<not> startFound then True else startFound,
              if cellAt grid (int (length grid) - 1 - int i, h - 1) \<and> \<not> endFound
              then True else endFound)
         else (startC, endC, startFound, endFound))
      else (startC, endC, startFound, endFound))"
  by pat_completeness auto
termination
  by (relation "measure (\<lambda>(grid, h, i, st). length grid - i)") auto

text \<open>
  \<open>mazePrimsAlgorithm\<close>. \<open>Array(height)\<close> raises a RangeError for a negative
  \<open>height\<close>, when \<open>Array.from\<close> calls it (\<open>width > 0\<close>); for \<open>width \<le> 0\<close> the grid is
  empty and the write to \<open>grid[firstCell.x]\<close> raises a TypeError.
\<close>

definition firstCell :: "int \<Rightarrow> int \<Rightarrow> (nat \<Rightarrow> nat) \<Rightarrow> Coord" where
  "firstCell w h rng = (randomIndex (rng 0) w, randomIndex (rng 1) h)"

definition mazeGrid :: "int \<Rightarrow> int \<Rightarrow> (nat \<Rightarrow> nat) \<Rightarrow> Grid option" where
  "mazeGrid w h rng =
     mazeLoop w h rng 2
       (setCell (replicate (nat w) (replicate (nat h) False)) (firstCell w h rng),
        getCells w h (firstCell w h rng))"

definition mazePrimsAlgorithm ::
  "int \<Rightarrow> int \<Rightarrow> (nat \<Rightarrow> nat) \<Rightarrow> (JsError + MazeResult) option" where
  "mazePrimsAlgorithm w h rng =
     (if 0 < w \<and> h < 0 then Some (Inl RangeError)
      else if \<not> (0 \<le> fst (firstCell w h rng) \<and> fst (firstCell w h rng) < int (nat w))
      then Some (Inl TypeError)
      else
        (case mazeGrid w h rng of
           None \<Rightarrow> None
         | Some grid \<Rightarrow>
             (let r = findStartEnd grid h 0 ((0, 0), (0, 0), False, False)
              in Some (Inr \<lparr>finalWallList = collectWalls grid,
                            mazeStart = fst r, mazeEnd = fst (snd r)\<rparr>))))"

section \<open>Vocabulary of the specification and of the proofs\<close>

text \<open>The derived cost \<open>fCost = gCost + hCost\<close> that the selection compares.\<close>

definition fCost :: "Node \<Rightarrow> int" where
  "fCost n = gCost n + hCost n"

text \<open>The heuristic value a node's \<open>hCost\<close> is meant to hold, by the movement mode.\<close>

definition hFormula :: "State \<Rightarrow> Node \<Rightarrow> bool" where
  "hFormula s n =
     (let dx = \<bar>node_x n - fst (end' s)\<bar>; dy = \<bar>node_y n - snd (end' s)\<bar>
      in hCost n = (if diagonalMovement s then D * (dx + dy) + (D2 - 2 * D) * min dx dy
                    else D * (dx + dy)))"

text \<open>The node the loop over the neighbours builds for a neighbour.\<close>

definition updatedNeighbor :: "State \<Rightarrow> Node \<Rightarrow> Coord \<Rightarrow> Node" where
  "updatedNeighbor s cur nb =
     Node (fst nb) (snd nb)
       (gCost cur + (if fst nb \<noteq> node_x cur \<and> snd nb \<noteq> node_y cur then D2 else D))
       (if diagonalMovement s then getDiagonalDistance s nb else getManhattanDistance s nb)
       (Some cur)"

text \<open>
  Scenarios: the 3 by 3 grid without walls of the worked example; a 5 by 5 grid with the
  end points the component starts with; a grid whose two cells next to the start are walls.
\<close>

definition grid3 :: "bool \<Rightarrow> State" where
  "grid3 d = \<lparr>width = 3, height = 3, start = (0, 0), end' = (2, 2), walls = [],
     openNodes = [], closedNodes = [], nodePath = [], diagonalMovement = d,
     iterations = 0, distance = 0\<rparr>"

definition room5 :: State where
  "room5 = \<lparr>width = 5, height = 5, start = (0, 0), end' = (1, 1), walls = [],
     openNodes = [], closedNodes = [], nodePath = [], diagonalMovement = True,
     iterations = 0, distance = 0\<rparr>"

definition cornered :: State where
  "cornered = \<lparr>width = 3, height = 3, start = (0, 0), end' = (2, 2), walls = [(1, 0), (0, 1)],
     openNodes = [], closedNodes = [], nodePath = [], diagonalMovement = True,
     iterations = 0, distance = 0\<rparr>"

text \<open>
  The cells of the grid, and the four-neighbourhood.
\<close>

definition inBounds :: "int \<Rightarrow> int \<Rightarrow> Coord \<Rightarrow> bool" where
  "inBounds w h c = (0 \<le> fst c \<and> fst c < w \<and> 0 \<le> snd c \<and> snd c < h)"

definition adjacent :: "Coord \<Rightarrow> Coord \<Rightarrow> bool" where
  "adjacent c n = (\<bar>fst c - fst n\<bar> + \<bar>snd c - snd n\<bar> = 1)"

text \<open>
  A grid of \<open>w\<close> rows of \<open>h\<close> cells, as the generator allocates it.
\<close>

definition wellFormed :: "int \<Rightarrow> int \<Rightarrow> Grid \<Rightarrow> bool" where
  "wellFormed w h grid = (length grid = nat w \<and> (\<forall>row \<in> set grid. length row = nat h))"

text \<open>
  \<open>reachable P a c\<close>: from \<open>a\<close> the cell \<open>c\<close> is reached by moves between adjacent cells,
  every cell on the way (the two ends included) satisfying \<open>P\<close>.
\<close>

inductive reachable :: "(Coord \<Rightarrow> bool) \<Rightarrow> Coord \<Rightarrow> Coord \<Rightarrow> bool" for P a where
  here: "P a \<Longrightarrow> reachable P a a"
| move: "reachable P a b \<Longrightarrow> adjacent b c \<Longrightarrow> P c \<Longrightarrow> reachable P a c"

text \<open>
  The value of \<open>count\<close> for a cell: its neighbours in the grid that are passages.
\<close>

definition passCount :: "int \<Rightarrow> int \<Rightarrow> Grid \<Rightarrow> Coord \<Rightarrow> nat" where
  "passCount w h grid c = length (filter (cellAt grid) (getCells w h c))"

text \<open>
  The invariant of the generator's loop for the seed cell: the grid keeps its shape, the
  wall list holds cells of the grid, every passage is reachable from the seed through
  passages, and every wall with exactly one passage neighbour is in the wall list.
\<close>

definition mazeInv :: "int \<Rightarrow> int \<Rightarrow> Coord \<Rightarrow> Grid \<times> Coord list \<Rightarrow> bool" where
  "mazeInv w h seed st =
     (wellFormed w h (fst st) \<and> (\<forall>c \<in> set (snd st). inBounds w h c)
      \<and> cellAt (fst st) seed
      \<and> (\<forall>c. cellAt (fst st) c \<longrightarrow> reachable (cellAt (fst st)) seed c)
      \<and> (\<forall>c. inBounds w h c \<and> \<not> cellAt (fst st) c \<and> passCount w h (fst st) c = 1
             \<longrightarrow> c \<in> set (snd st)))"

text \<open>
  The order in which the loop's state decreases: the walls of the grid, then the entries
  of the wall list that are passages already, then the length of the wall list.
\<close>

definition mazeOrder :: "int \<Rightarrow> int \<Rightarrow> ((Grid \<times> Coord list) \<times> (Grid \<times> Coord list)) set" where
  "mazeOrder w h =
     inv_image (less_than <*lex*> less_than <*lex*> less_than)
       (\<lambda>st. (card {c. inBounds w h c \<and> \<not> cellAt (fst st) c},
              length (filter (cellAt (fst st)) (snd st)),
              length (snd st)))"

text \<open>
  A set of passages within the grid in which no wall of the grid has exactly one passage
  neighbour: a wall next to a passage is next to a second one.
\<close>

definition settled :: "int \<Rightarrow> int \<Rightarrow> (Coord \<Rightarrow> bool) \<Rightarrow> bool" where
  "settled w h P =
     ((\<forall>c. P c \<longrightarrow> inBounds w h c)
      \<and> (\<forall>c n. inBounds w h c \<and> \<not> P c \<and> adjacent c n \<and> P n
             \<longrightarrow> (\<exists>n'. adjacent c n' \<and> n' \<noteq> n \<and> P n')))"

text \<open>
  The scan for the start and the end as the specification words it, to compare with
  \<open>findStartEnd\<close>: from index \<open>i\<close> on, at each index the cell \<open>(0, i)\<close> is tested for the
  start and the cell \<open>(width - 1 - i, height - 1)\<close> for the end, each only while not yet
  found; the scan stops once both are found or \<open>i\<close> has exhausted the grid height.
\<close>

function lockstepScan ::
  "Grid \<Rightarrow> int \<Rightarrow> int \<Rightarrow> nat \<Rightarrow> Coord \<times> Coord \<times> bool \<times> bool \<Rightarrow> Coord \<times> Coord \<times> bool \<times> bool" where
  "lockstepScan grid w h i (startC, endC, startFound, endFound) =
     (if (startFound \<and> endFound) \<or> \<not> int i < h then (startC, endC, startFound, endFound)
      else lockstepScan grid w h (i + 1)
             (if \<not> startFound \<and> cellAt grid (0, int i) then (0, int i) else startC,
              if \<not> endFound \<and> cellAt grid (w - 1 - int i, h - 1)
              then (w - 1 - int i, h - 1) else endC,
              startFound \<or> cellAt grid (0, int i),
              endFound \<or> cellAt grid (w - 1 - int i, h - 1)))"
  by pat_completeness auto
termination
  by (relation "measure (\<lambda>(grid, w, h, i, st). nat h - i)") auto

declare lockstepScan.simps [simp del]

section \<open>Lemmas about the search\<close>

lemma relax_None:
  "findIndex (\<lambda>node. node_x node = fst nb \<and> node_y node = snd nb) ns = None \<Longrightarrow>
   relax s cur ns nb = ns @ [updatedNeighbor s cur nb]"
  by (simp add: relax_def Let_def updatedNeighbor_def)

lemma relax_Some:
  "findIndex (\<lambda>node. node_x node = fst nb \<and> node_y node = snd nb) ns = Some i \<Longrightarrow>
   relax s cur ns nb =
     (if gCost (updatedNeighbor s cur nb) \<le> gCost (ns ! i) then ns[i := updatedNeighbor s cur nb]
      else ns)"
  by (simp add: relax_def Let_def updatedNeighbor_def)

lemma relax_cases:
  "relax s cur ns nb = ns @ [updatedNeighbor s cur nb]
   \<or> (\<exists>i. relax s cur ns nb = ns[i := updatedNeighbor s cur nb])
   \<or> relax s cur ns nb = ns"
proof (cases "findIndex (\<lambda>node. node_x node = fst nb \<and> node_y node = snd nb) ns")
  case None
  then show ?thesis by (simp add: relax_None)
next
  case (Some i)
  then show ?thesis by (auto simp: relax_Some)
qed

lemma set_relax_subset:
  "set (relax s cur ns nb) \<subseteq> insert (updatedNeighbor s cur nb) (set ns)"
proof -
  have "set (ns[i := updatedNeighbor s cur nb]) \<subseteq> insert (updatedNeighbor s cur nb) (set ns)" for i
    by (rule set_update_subset_insert)
  then show ?thesis
    using relax_cases[of s cur ns nb] by (elim disjE exE) (simp_all, blast)
qed

lemma astarLoop_break:
  assumes "node_x (fst (popLeast first others)) = fst (end' s)
           \<and> node_y (fst (popLeast first others)) = snd (end' s)"
  shows "astarLoop s (first # others) cls c ost =
           (snd (popLeast first others), cls @ [fst (popLeast first others)], c, ost)"
  by (simp only: astarLoop.simps(2) Let_def if_P[OF assms])

lemma astarLoop_continue:
  assumes "\<not> (node_x (fst (popLeast first others)) = fst (end' s)
           \<and> node_y (fst (popLeast first others)) = snd (end' s))"
  shows "astarLoop s (first # others) cls c ost =
           astarLoop s
             (foldl (relax s (fst (popLeast first others))) (snd (popLeast first others))
                (getValidNeighbors s (fst (popLeast first others))
                   (cls @ [fst (popLeast first others)])))
             (cls @ [fst (popLeast first others)]) (c + 1)
             (foldl (relax s (fst (popLeast first others))) (snd (popLeast first others))
                (getValidNeighbors s (fst (popLeast first others))
                   (cls @ [fst (popLeast first others)])))"
  by (simp only: astarLoop.simps(2) Let_def if_not_P[OF assms])

lemma hFormula_startNode: "hFormula s (startNode s)"
  by (simp add: hFormula_def startNode_def getDiagonalDistance_def getManhattanDistance_def Let_def)

lemma hFormula_updatedNeighbor: "hFormula s (updatedNeighbor s cur nb)"
  by (simp add: hFormula_def updatedNeighbor_def getDiagonalDistance_def
      getManhattanDistance_def Let_def)

lemma hFormula_relax:
  assumes "\<forall>n \<in> set ns. hFormula s n"
  shows "\<forall>n \<in> set (relax s cur ns nb). hFormula s n"
  using assms set_relax_subset[of s cur ns nb] hFormula_updatedNeighbor[of s cur nb] by auto

lemma hFormula_foldl_relax:
  "\<forall>n \<in> set ns. hFormula s n \<Longrightarrow> \<forall>n \<in> set (foldl (relax s cur) ns nbs). hFormula s n"
proof (induction nbs arbitrary: ns)
  case Nil then show ?case by simp
next
  case (Cons nb nbs)
  from Cons.IH[OF hFormula_relax[OF Cons.prems]] show ?case by simp
qed

lemma popLeast_subset: "set (snd (popLeast first others)) \<subseteq> set (first # others)"
  by (auto simp: popLeast_def Let_def)

lemma hFormula_astarLoop:
  "\<forall>n \<in> set ns \<union> set cls. hFormula s n \<Longrightarrow>
   \<forall>n \<in> set (fst (astarLoop s ns cls c ost)) \<union> set (fst (snd (astarLoop s ns cls c ost))). hFormula s n"
proof (induction s ns cls c ost rule: astarLoop.induct)
  case (1 s cls c ost)
  then show ?case by (simp add: astarLoop.simps(1))
next
  case (2 s first others cls c ost)
  let ?cur = "fst (popLeast first others)"
  let ?open1 = "snd (popLeast first others)"
  have cur: "hFormula s ?cur"
    using popLeast_mem[of first others] "2.prems" by blast
  have open1: "\<forall>n \<in> set ?open1. hFormula s n"
    using popLeast_subset[of first others] "2.prems" by blast
  have cls1: "\<forall>n \<in> set (cls @ [?cur]). hFormula s n"
    using cur "2.prems" by auto
  show ?case
  proof (cases "node_x ?cur = fst (end' s) \<and> node_y ?cur = snd (end' s)")
    case True
    show ?thesis unfolding astarLoop_break[OF True] using open1 cls1 by auto
  next
    case False
    let ?open2 = "foldl (relax s ?cur) ?open1 (getValidNeighbors s ?cur (cls @ [?cur]))"
    have "\<forall>n \<in> set ?open2 \<union> set (cls @ [?cur]). hFormula s n"
      using hFormula_foldl_relax[OF open1] cls1 by blast
    from "2.IH"[OF refl refl refl False refl refl this]
    show ?thesis unfolding astarLoop_continue[OF False] .
  qed
qed



lemma reduceLeastF_snoc:
  "reduceLeastF first (others @ [a]) = leastF (reduceLeastF first others) a"
  by (simp add: reduceLeastF_def)

lemma set_straight: "set straight = {(-1, 0), (0, 1), (1, 0), (0, -1)}"
  by (simp add: straight_def)

lemma set_diagonal: "set diagonal = {(-1, 1), (-1, -1), (1, 1), (1, -1)}"
  by (simp add: diagonal_def)

lemma getValidNeighbors_iff:
  "nb \<in> set (getValidNeighbors s node cls) \<longleftrightarrow>
     (fst nb - node_x node, snd nb - node_y node)
        \<in> set straight \<union> (if diagonalMovement s then set diagonal else {})
     \<and> 0 \<le> fst nb \<and> fst nb < width s \<and> 0 \<le> snd nb \<and> snd nb < height s
     \<and> \<not> isWallTile s (fst nb) (snd nb) \<and> \<not> isClosedNode nb cls"
proof -
  have off: "nb \<in> (\<lambda>direction. (fst direction + node_x node, snd direction + node_y node)) ` A
        \<longleftrightarrow> (fst nb - node_x node, snd nb - node_y node) \<in> A" for A
  proof
    assume "nb \<in> (\<lambda>direction. (fst direction + node_x node, snd direction + node_y node)) ` A"
    then obtain d where "d \<in> A" "nb = (fst d + node_x node, snd d + node_y node)" by blast
    then show "(fst nb - node_x node, snd nb - node_y node) \<in> A" by simp
  next
    assume a: "(fst nb - node_x node, snd nb - node_y node) \<in> A"
    have "nb = (fst (fst nb - node_x node, snd nb - node_y node) + node_x node,
                snd (fst nb - node_x node, snd nb - node_y node) + node_y node)"
      by simp
    with a show "nb \<in> (\<lambda>direction. (fst direction + node_x node, snd direction + node_y node)) ` A"
      by (rule rev_image_eqI)
  qed
  show ?thesis
    unfolding getValidNeighbors_def Let_def set_filter set_map mem_Collect_eq off
    by (cases "diagonalMovement s") (simp_all only: if_True if_False set_append Un_empty_right, blast+)
qed

lemma findIndex_None_coord:
  "(\<forall>n \<in> set ns. coordOf n \<noteq> nb) \<Longrightarrow>
   findIndex (\<lambda>node. node_x node = fst nb \<and> node_y node = snd nb) ns = None"
  by (subst findIndex_None) (auto simp: coordOf_def)

lemma findIndex_first:
  "i < length as \<Longrightarrow> p (as ! i) \<Longrightarrow> (\<forall>j < i. \<not> p (as ! j)) \<Longrightarrow> findIndex p as = Some i"
proof (induction as arbitrary: i)
  case Nil
  then show ?case by simp
next
  case (Cons a as)
  show ?case
  proof (cases i)
    case 0
    with Cons.prems show ?thesis by simp
  next
    case (Suc k)
    with Cons.prems have "\<not> p a" by auto
    moreover have "findIndex p as = Some k"
    proof (rule Cons.IH)
      show "k < length as" using Cons.prems Suc by simp
      show "p (as ! k)" using Cons.prems Suc by simp
      show "\<forall>j < k. \<not> p (as ! j)" using Cons.prems(3) Suc by auto
    qed
    ultimately show ?thesis using Suc by simp
  qed
qed

lemma findIndex_first_coord:
  assumes "i < length ns" "coordOf (ns ! i) = nb" "\<forall>j < i. coordOf (ns ! j) \<noteq> nb"
  shows "findIndex (\<lambda>node. node_x node = fst nb \<and> node_y node = snd nb) ns = Some i"
proof (rule findIndex_first[OF assms(1)])
  show "node_x (ns ! i) = fst nb \<and> node_y (ns ! i) = snd nb"
    using assms(2) by (auto simp: coordOf_def)
  show "\<forall>j<i. \<not> (node_x (ns ! j) = fst nb \<and> node_y (ns ! j) = snd nb)"
    using assms(3) by (auto simp: coordOf_def)
qed

lemma diagonal_move_iff:
  assumes "nb \<in> set (getValidNeighbors s cur cls)"
  shows "(fst nb \<noteq> node_x cur \<and> snd nb \<noteq> node_y cur)
           \<longleftrightarrow> (fst nb - node_x cur, snd nb - node_y cur) \<in> set diagonal"
proof -
  from assms have "(fst nb - node_x cur, snd nb - node_y cur) \<in> set straight \<union> set diagonal"
    unfolding getValidNeighbors_iff by (auto split: if_splits)
  then show ?thesis
    unfolding set_straight set_diagonal by auto
qed

lemma startPathFind_no_path:
  assumes "find (\<lambda>node. node_x node = fst (end' s) \<and> node_y node = snd (end' s))
             (fst (snd (astarLoop s [startNode s] [] 0 []))) = None"
  shows "nodePath (startPathFind s) = [] \<and> distance (startPathFind s) = distance s"
  using assms by (simp add: startPathFind_def Let_def reset_def)

section \<open>Lemmas about the maze generator\<close>

lemma adjacent_cases:
  "adjacent c n \<longleftrightarrow> n = (fst c - 1, snd c) \<or> n = (fst c, snd c + 1)
                     \<or> n = (fst c + 1, snd c) \<or> n = (fst c, snd c - 1)"
proof -
  have "\<bar>a - x\<bar> + \<bar>b - y\<bar> = 1 \<longleftrightarrow>
          (x = a - 1 \<and> y = b) \<or> (x = a \<and> y = b + 1) \<or> (x = a + 1 \<and> y = b) \<or> (x = a \<and> y = b - 1)"
    for a b x y :: int
    by linarith
  then show ?thesis
    unfolding adjacent_def by (simp add: prod_eq_iff)
qed

lemma mem_getCells:
  "n \<in> set (getCells w h c) \<longleftrightarrow> adjacent c n \<and> inBounds w h n"
proof -
  have "n \<in> set (map (\<lambda>direction. (fst direction + fst c, snd direction + snd c)) directions)
          \<longleftrightarrow> adjacent c n"
    unfolding adjacent_cases directions_def by (simp add: prod_eq_iff) linarith
  then show ?thesis
    unfolding getCells_def inBounds_def by auto
qed

lemma distinct_getCells: "distinct (getCells w h c)"
proof -
  have "distinct (map (\<lambda>direction. (fst direction + fst c, snd direction + snd c)) directions)"
    by (simp add: directions_def)
  then show ?thesis
    unfolding getCells_def by (rule distinct_filter)
qed

lemma cellAt_inBounds: "wellFormed w h grid \<Longrightarrow> cellAt grid c \<Longrightarrow> inBounds w h c"
  unfolding wellFormed_def cellAt_def inBounds_def
  by (metis nat_less_iff nth_mem zless_nat_conj  nat_int  of_nat_less_iff)

lemma wellFormed_setCell:
  assumes "wellFormed w h grid" "inBounds w h c"
  shows "wellFormed w h (setCell grid c)"
proof -
  have r: "length (grid ! nat (fst c)) = nat h"
    using assms unfolding wellFormed_def inBounds_def by (simp add: nat_less_iff)
  have j: "nat (snd c) < nat h"
    using assms(2) unfolding inBounds_def by simp
  have "length ((grid ! nat (fst c))[nat (snd c) := True]) = nat h"
    using r by simp
  with assms(1) r j show ?thesis
    unfolding wellFormed_def setCell_def Let_def
    by (auto dest!: set_update_subset_insert[THEN subsetD])
qed

lemma cellAt_setCell:
  assumes "wellFormed w h grid" "inBounds w h c"
  shows "cellAt (setCell grid c) c' \<longleftrightarrow> c' = c \<or> cellAt grid c'"
proof -
  have r: "length (grid ! nat (fst c)) = nat h" and x: "nat (fst c) < length grid"
    using assms unfolding wellFormed_def inBounds_def by (simp_all add: nat_less_iff)
  have j: "nat (snd c) < nat h"
    using assms(2) unfolding inBounds_def by simp
  have s: "setCell grid c = grid[nat (fst c) := (grid ! nat (fst c))[nat (snd c) := True]]"
    unfolding setCell_def Let_def using r j by simp
  have c: "0 \<le> fst c" "0 \<le> snd c"
    using assms(2) unfolding inBounds_def by simp_all
  show ?thesis
  proof (cases "c' = c")
    case True
    then show ?thesis
      unfolding s cellAt_def using x r j c by simp
  next
    case False
    then have "fst c' \<noteq> fst c \<or> snd c' \<noteq> snd c"
      by (simp add: prod_eq_iff)
    then have "cellAt (grid[nat (fst c) := (grid ! nat (fst c))[nat (snd c) := True]]) c'
                 = cellAt grid c'"
      unfolding cellAt_def using c x
      by (auto simp: nth_list_update nat_eq_iff)
    with False show ?thesis unfolding s by simp
  qed
qed

lemma wellFormed_replicate:
  "wellFormed w h (replicate (nat w) (replicate (nat h) False))"
  by (simp add: wellFormed_def)

lemma cellAt_replicate: "\<not> cellAt (replicate n (replicate m False)) c"
  unfolding cellAt_def by (auto simp: nat_less_iff)

lemma wf_mazeOrder: "wf (mazeOrder w h)"
  unfolding mazeOrder_def by (intro wf_inv_image wf_lex_prod wf_less_than)

lemma adjacent_sym: "adjacent c n \<Longrightarrow> adjacent n c"
  unfolding adjacent_def by linarith

lemma adjacent_irrefl: "\<not> adjacent c c"
  unfolding adjacent_def by simp

lemma reachable_mono:
  assumes "reachable P a b" and "\<And>c. P c \<Longrightarrow> Q c"
  shows "reachable Q a b"
  using assms(1)
proof induction
  case here
  then show ?case by (intro reachable.here assms(2))
next
  case (move b c)
  then show ?case by (intro reachable.move[of Q a b c] assms(2))
qed

lemma randomIndex_less:
  assumes "wallList \<noteq> []"
  shows "nat (randomIndex r (int (length wallList))) < length wallList"
proof -
  have "0 < int (length wallList)" using assms by simp
  then have "int r mod int (length wallList) < int (length wallList)"
    by (rule pos_mod_bound)
  moreover have "0 \<le> int r mod int (length wallList)"
    using \<open>0 < int (length wallList)\<close> by (intro pos_mod_sign)
  ultimately show ?thesis
    using assms by (simp add: randomIndex_def nat_less_iff)
qed

lemma randomIndex_any:
  assumes "i < length wallList"
  shows "nat (randomIndex i (int (length wallList))) = i"
  using assms by (auto simp: randomIndex_def)

lemma mazeStep_convert:
  assumes "wallList \<noteq> []" "i = nat (randomIndex r (int (length wallList)))"
    and "passCount w h grid (wallList ! i) = 1"
  shows "mazeStep w h r (grid, wallList) =
           (setCell grid (wallList ! i),
            take i wallList @ drop (Suc i) wallList
              @ filter (\<lambda>cell. \<not> cellAt (setCell grid (wallList ! i)) cell)
                  (getCells w h (wallList ! i)))"
proof -
  have "nat (randomIndex r (int (length wallList))) < length wallList"
    by (rule randomIndex_less[OF assms(1)])
  then show ?thesis
    using assms(3) unfolding assms(2) mazeStep_def Let_def passCount_def
    by simp
qed

lemma mazeStep_skip:
  assumes "i = nat (randomIndex r (int (length wallList)))"
    and "passCount w h grid (wallList ! i) \<noteq> 1"
  shows "mazeStep w h r (grid, wallList) = (grid, take i wallList @ drop (Suc i) wallList)"
  using assms(2) unfolding assms(1) mazeStep_def Let_def passCount_def
  by simp

lemma set_remove_nth_subset: "set (take i xs @ drop (Suc i) xs) \<subseteq> set xs"
  using set_take_subset[of i xs] set_drop_subset[of "Suc i" xs] by auto

lemma set_remove_nth_other:
  assumes "x \<in> set xs" "x \<noteq> xs ! i"
  shows "x \<in> set (take i xs @ drop (Suc i) xs)"
proof (cases "i < length xs")
  case True
  from id_take_nth_drop[OF True] have "set xs = set (take i xs @ xs ! i # drop (Suc i) xs)"
    by simp
  with assms show ?thesis by auto
next
  case False
  with assms(1) show ?thesis by simp
qed

lemma filter_remove_nth:
  assumes "i < length xs"
  shows "length (filter P (take i xs @ drop (Suc i) xs)) + (if P (xs ! i) then 1 else 0)
           = length (filter P xs)"
proof -
  have "length (filter P xs) = length (filter P (take i xs @ xs ! i # drop (Suc i) xs))"
    using id_take_nth_drop[OF assms] by simp
  then show ?thesis by simp
qed

lemma length_remove_nth:
  assumes "i < length xs"
  shows "Suc (length (take i xs @ drop (Suc i) xs)) = length xs"
  using assms by simp

lemma passCount_one_neighbour:
  assumes "passCount w h grid c = 1"
  shows "\<exists>n. adjacent c n \<and> inBounds w h n \<and> cellAt grid n"
proof -
  from assms have "filter (cellAt grid) (getCells w h c) \<noteq> []"
    unfolding passCount_def by auto
  then obtain n where "n \<in> set (getCells w h c)" "cellAt grid n"
    by (auto simp: filter_empty_conv)
  then show ?thesis
    unfolding mem_getCells by blast
qed

lemma passCount_cong:
  assumes "\<And>n. adjacent c n \<Longrightarrow> cellAt grid' n = cellAt grid n"
  shows "passCount w h grid' c = passCount w h grid c"
proof -
  have "filter (cellAt grid') (getCells w h c) = filter (cellAt grid) (getCells w h c)"
    by (rule filter_cong[OF refl]) (simp add: mem_getCells assms)
  then show ?thesis
    unfolding passCount_def by simp
qed

lemma finite_inBounds: "finite {c. inBounds w h c \<and> Q c}"
proof -
  have "{c. inBounds w h c \<and> Q c} \<subseteq> {0..<w} \<times> {0..<h}"
    by (auto simp: inBounds_def)
  then show ?thesis
    by (rule finite_subset) simp
qed

lemma mazeInv_step:
  assumes inv: "mazeInv w h seed (grid, wallList)" and ne: "wallList \<noteq> []"
  shows "mazeInv w h seed (mazeStep w h r (grid, wallList))"
proof -
  define i where "i = nat (randomIndex r (int (length wallList)))"
  define c0 where "c0 = wallList ! i"
  have i: "i < length wallList"
    unfolding i_def by (rule randomIndex_less[OF ne])
  from inv have wf: "wellFormed w h grid"
    and wlb: "\<forall>c \<in> set wallList. inBounds w h c"
    and seed: "cellAt grid seed"
    and conn: "\<forall>c. cellAt grid c \<longrightarrow> reachable (cellAt grid) seed c"
    and front: "\<forall>c. inBounds w h c \<and> \<not> cellAt grid c \<and> passCount w h grid c = 1
                  \<longrightarrow> c \<in> set wallList"
    unfolding mazeInv_def by simp_all
  have c0b: "inBounds w h c0"
    unfolding c0_def using wlb i by simp
  show ?thesis
  proof (cases "passCount w h grid c0 = 1")
    case False
    have st: "mazeStep w h r (grid, wallList) = (grid, take i wallList @ drop (Suc i) wallList)"
      using mazeStep_skip[OF i_def] False unfolding c0_def by simp
    have "c \<in> set (take i wallList @ drop (Suc i) wallList)"
      if "inBounds w h c" "\<not> cellAt grid c" "passCount w h grid c = 1" for c
    proof -
      from that front have "c \<in> set wallList" by blast
      moreover from that(3) False have "c \<noteq> wallList ! i" unfolding c0_def by auto
      ultimately show ?thesis by (rule set_remove_nth_other)
    qed
    moreover have "\<forall>c \<in> set (take i wallList @ drop (Suc i) wallList). inBounds w h c"
      using wlb set_remove_nth_subset[of i wallList] by blast
    ultimately show ?thesis
      unfolding st mazeInv_def fst_conv snd_conv using wf seed conn by blast
  next
    case True
    define grid' where "grid' = setCell grid c0"
    define new where "new = filter (\<lambda>cell. \<not> cellAt grid' cell) (getCells w h c0)"
    have st: "mazeStep w h r (grid, wallList) = (grid', take i wallList @ drop (Suc i) wallList @ new)"
      using mazeStep_convert[OF ne i_def] True unfolding c0_def grid'_def new_def by simp
    have wf': "wellFormed w h grid'"
      unfolding grid'_def by (rule wellFormed_setCell[OF wf c0b])
    have cell': "cellAt grid' c \<longleftrightarrow> c = c0 \<or> cellAt grid c" for c
      unfolding grid'_def by (rule cellAt_setCell[OF wf c0b])
    have newb: "\<forall>c \<in> set new. inBounds w h c"
      unfolding new_def by (simp add: mem_getCells)
    have wlb': "\<forall>c \<in> set (take i wallList @ drop (Suc i) wallList @ new). inBounds w h c"
      using wlb newb set_remove_nth_subset[of i wallList] by auto
    have seed': "cellAt grid' seed"
      using seed cell' by simp
    have old: "reachable (cellAt grid') seed c" if "cellAt grid c" for c
    proof (rule reachable_mono)
      show "reachable (cellAt grid) seed c" using conn that by blast
      show "\<And>c. cellAt grid c \<Longrightarrow> cellAt grid' c" using cell' by simp
    qed
    have c0r: "reachable (cellAt grid') seed c0"
    proof -
      from passCount_one_neighbour[OF True] obtain n where n: "adjacent c0 n" "cellAt grid n"
        by blast
      show ?thesis
      proof (rule reachable.move)
        show "reachable (cellAt grid') seed n" by (rule old[OF n(2)])
        show "adjacent n c0" by (rule adjacent_sym[OF n(1)])
        show "cellAt grid' c0" using cell' by simp
      qed
    qed
    have conn': "\<forall>c. cellAt grid' c \<longrightarrow> reachable (cellAt grid') seed c"
    proof (intro allI impI)
      fix c assume "cellAt grid' c"
      then have "c = c0 \<or> cellAt grid c" unfolding cell' .
      then show "reachable (cellAt grid') seed c"
      proof
        assume "c = c0"
        then show ?thesis using c0r by simp
      next
        assume "cellAt grid c"
        then show ?thesis by (rule old)
      qed
    qed
    have front': "c \<in> set (take i wallList @ drop (Suc i) wallList @ new)"
      if c: "inBounds w h c" "\<not> cellAt grid' c" "passCount w h grid' c = 1" for c
    proof (cases "adjacent c0 c")
      case True
      with c(1,2) have "c \<in> set new"
        unfolding new_def by (simp add: mem_getCells)
      then show ?thesis by simp
    next
      case False
      have "passCount w h grid' c = passCount w h grid c"
      proof (rule passCount_cong)
        fix n assume "adjacent c n"
        with False have "n \<noteq> c0" using adjacent_sym by blast
        then show "cellAt grid' n = cellAt grid n" using cell' by simp
      qed
      with c(3) have "passCount w h grid c = 1" by simp
      moreover from c(2) have nc: "\<not> cellAt grid c \<and> c \<noteq> c0" unfolding cell' by simp
      ultimately have "c \<in> set wallList"
        using front[rule_format, of c] c(1) by simp
      moreover from nc have "c \<noteq> wallList ! i" unfolding c0_def by simp
      ultimately have "c \<in> set (take i wallList @ drop (Suc i) wallList)"
        by (rule set_remove_nth_other)
      then show ?thesis by auto
    qed
    show ?thesis
      unfolding st mazeInv_def fst_conv snd_conv
      using wf' wlb' seed' conn' front' by blast
  qed
qed

lemma mazeOrder_step:
  assumes inv: "mazeInv w h seed (grid, wallList)" and ne: "wallList \<noteq> []"
  shows "(mazeStep w h r (grid, wallList), (grid, wallList)) \<in> mazeOrder w h"
proof -
  define i where "i = nat (randomIndex r (int (length wallList)))"
  define c0 where "c0 = wallList ! i"
  have i: "i < length wallList"
    unfolding i_def by (rule randomIndex_less[OF ne])
  from inv have wf: "wellFormed w h grid" and wlb: "\<forall>c \<in> set wallList. inBounds w h c"
    unfolding mazeInv_def by simp_all
  have c0b: "inBounds w h c0"
    unfolding c0_def using wlb i by simp
  let ?rest = "take i wallList @ drop (Suc i) wallList"
  have len: "Suc (length ?rest) = length wallList"
    by (rule length_remove_nth[OF i])
  have cnt: "length (filter P ?rest) + (if P c0 then 1 else 0) = length (filter P wallList)" for P
    unfolding c0_def by (rule filter_remove_nth[OF i])
  show ?thesis
  proof (cases "passCount w h grid c0 = 1")
    case False
    have st: "mazeStep w h r (grid, wallList) = (grid, ?rest)"
      using mazeStep_skip[OF i_def] False unfolding c0_def by simp
    show ?thesis
      unfolding st mazeOrder_def using len cnt[of "cellAt grid"]
      by (auto split: if_splits)
  next
    case True
    define grid' where "grid' = setCell grid c0"
    define new where "new = filter (\<lambda>cell. \<not> cellAt grid' cell) (getCells w h c0)"
    have st: "mazeStep w h r (grid, wallList) = (grid', ?rest @ new)"
      using mazeStep_convert[OF ne i_def] True unfolding c0_def grid'_def new_def by simp
    have cell': "cellAt grid' c \<longleftrightarrow> c = c0 \<or> cellAt grid c" for c
      unfolding grid'_def by (rule cellAt_setCell[OF wf c0b])
    have fnew: "filter (cellAt grid') new = []"
      unfolding new_def by (simp add: filter_empty_conv)
    show ?thesis
    proof (cases "cellAt grid c0")
      case False
      have "{c. inBounds w h c \<and> \<not> cellAt grid' c} = {c. inBounds w h c \<and> \<not> cellAt grid c} - {c0}"
        using cell' by auto
      moreover have "c0 \<in> {c. inBounds w h c \<and> \<not> cellAt grid c}"
        using c0b False by simp
      ultimately have "card {c. inBounds w h c \<and> \<not> cellAt grid' c}
                         < card {c. inBounds w h c \<and> \<not> cellAt grid c}"
        using finite_inBounds[of w h "\<lambda>c. \<not> cellAt grid c"]
        by (simp only: card_Diff1_less)
      then show ?thesis
        unfolding st mazeOrder_def by simp
    next
      case True
      have same: "cellAt grid' = cellAt grid"
        using cell' True by auto
      have "length (filter (cellAt grid') (?rest @ new)) < length (filter (cellAt grid) wallList)"
        using cnt[of "cellAt grid"] True fnew unfolding same by simp
      then show ?thesis
        unfolding st mazeOrder_def by (simp add: same)
    qed
  qed
qed

lemma mazeLoop_total:
  assumes "mazeInv w h seed st"
  shows "\<exists>grid. mazeLoop w h rng k st = Some grid \<and> mazeInv w h seed (grid, [])"
  using assms
proof (induction st arbitrary: k rule: wf_induct_rule[OF wf_mazeOrder[of w h]])
  case (1 st)
  obtain grid wallList where st: "st = (grid, wallList)"
    by (cases st)
  show ?case
  proof (cases "wallList = []")
    case True
    have "mazeLoop w h rng k st = Some grid"
      by (subst mazeLoop.simps) (simp add: st True)
    with "1.prems" show ?thesis
      unfolding st True by simp
  next
    case False
    have step: "mazeLoop w h rng k st = mazeLoop w h rng (k + 1) (mazeStep w h (rng k) st)"
      by (subst mazeLoop.simps) (simp add: st False)
    have "(mazeStep w h (rng k) st, st) \<in> mazeOrder w h"
      unfolding st by (rule mazeOrder_step[OF "1.prems"[unfolded st] False])
    moreover have "mazeInv w h seed (mazeStep w h (rng k) st)"
      unfolding st by (rule mazeInv_step[OF "1.prems"[unfolded st] False])
    ultimately show ?thesis
      unfolding step by (rule "1.IH")
  qed
qed

lemma firstCell_inBounds:
  assumes "0 < w" "0 < h"
  shows "inBounds w h (firstCell w h rng)"
  using assms unfolding inBounds_def firstCell_def randomIndex_def
  by simp

lemma mazeInv_initial:
  assumes "0 < w" "0 < h"
  shows "mazeInv w h (firstCell w h rng)
           (setCell (replicate (nat w) (replicate (nat h) False)) (firstCell w h rng),
            getCells w h (firstCell w h rng))"
proof -
  let ?seed = "firstCell w h rng"
  let ?g0 = "replicate (nat w) (replicate (nat h) False)"
  have sb: "inBounds w h ?seed" by (rule firstCell_inBounds[OF assms])
  have wf: "wellFormed w h (setCell ?g0 ?seed)"
    by (rule wellFormed_setCell[OF wellFormed_replicate sb])
  have cell: "cellAt (setCell ?g0 ?seed) c \<longleftrightarrow> c = ?seed" for c
    using cellAt_setCell[OF wellFormed_replicate sb] cellAt_replicate by simp
  have conn: "\<forall>c. cellAt (setCell ?g0 ?seed) c \<longrightarrow> reachable (cellAt (setCell ?g0 ?seed)) ?seed c"
    unfolding cell by (simp add: reachable.here cell)
  have front: "c \<in> set (getCells w h ?seed)"
    if "inBounds w h c" "passCount w h (setCell ?g0 ?seed) c = 1" for c
  proof -
    from passCount_one_neighbour[OF that(2)] have "adjacent c ?seed"
      unfolding cell by blast
    then show ?thesis
      unfolding mem_getCells using that(1) adjacent_sym by blast
  qed
  show ?thesis
    unfolding mazeInv_def fst_conv snd_conv
    using wf conn front by (simp add: cell mem_getCells)
qed

lemma mazeGrid_total:
  assumes "0 < w" "0 < h"
  shows "\<exists>grid. mazeGrid w h rng = Some grid \<and> mazeInv w h (firstCell w h rng) (grid, [])"
  unfolding mazeGrid_def by (rule mazeLoop_total[OF mazeInv_initial[OF assms]])

lemma set_collect_row:
  "set (map (\<lambda>j. (int i, int j)) (filter (\<lambda>j. \<not> cellAt grid (int i, int j)) [0..<n]))
     = {c. fst c = int i \<and> 0 \<le> snd c \<and> snd c < int n \<and> \<not> cellAt grid c}"
proof -
  have "c \<in> set (map (\<lambda>j. (int i, int j)) (filter (\<lambda>j. \<not> cellAt grid (int i, int j)) [0..<n]))
          \<longleftrightarrow> fst c = int i \<and> 0 \<le> snd c \<and> snd c < int n \<and> \<not> cellAt grid c" for c
  proof
    assume "c \<in> set (map (\<lambda>j. (int i, int j)) (filter (\<lambda>j. \<not> cellAt grid (int i, int j)) [0..<n]))"
    then obtain j where "j < n" "\<not> cellAt grid (int i, int j)" "c = (int i, int j)"
      by auto
    then show "fst c = int i \<and> 0 \<le> snd c \<and> snd c < int n \<and> \<not> cellAt grid c"
      by simp
  next
    assume a: "fst c = int i \<and> 0 \<le> snd c \<and> snd c < int n \<and> \<not> cellAt grid c"
    then have "nat (snd c) < n" "c = (int i, int (nat (snd c)))"
      by (auto simp: prod_eq_iff nat_less_iff)
    with a show "c \<in> set (map (\<lambda>j. (int i, int j)) (filter (\<lambda>j. \<not> cellAt grid (int i, int j)) [0..<n]))"
      by (metis (mono_tags, lifting) atLeast0LessThan image_eqI lessThan_iff mem_Collect_eq set_filter set_map set_upt)
  qed
  then show ?thesis by blast
qed

lemma set_collectWalls:
  assumes "wellFormed w h grid" "0 < w"
  shows "set (collectWalls grid) = {c. inBounds w h c \<and> \<not> cellAt grid c}"
proof -
  from assms have len: "length grid = nat w" "length (grid ! 0) = nat h"
    unfolding wellFormed_def by simp_all
  have "c \<in> set (collectWalls grid) \<longleftrightarrow> inBounds w h c \<and> \<not> cellAt grid c" for c
  proof -
    have "set (collectWalls grid) =
            (\<Union>i \<in> {0..<nat w}. set (map (\<lambda>j. (int i, int j))
                (filter (\<lambda>j. \<not> cellAt grid (int i, int j)) [0..<nat h])))"
      unfolding collectWalls_def len by simp
    then have "c \<in> set (collectWalls grid) \<longleftrightarrow>
            (\<exists>i < nat w. fst c = int i \<and> 0 \<le> snd c \<and> snd c < int (nat h) \<and> \<not> cellAt grid c)"
      unfolding set_collect_row by auto
    also have "\<dots> \<longleftrightarrow> inBounds w h c \<and> \<not> cellAt grid c"
    proof
      assume "\<exists>i < nat w. fst c = int i \<and> 0 \<le> snd c \<and> snd c < int (nat h) \<and> \<not> cellAt grid c"
      then show "inBounds w h c \<and> \<not> cellAt grid c"
        unfolding inBounds_def by (auto split: if_splits)
    next
      assume a: "inBounds w h c \<and> \<not> cellAt grid c"
      then have "nat (fst c) < nat w \<and> fst c = int (nat (fst c)) \<and> 0 \<le> snd c
                  \<and> snd c < int (nat h) \<and> \<not> cellAt grid c"
        unfolding inBounds_def by auto
      then show "\<exists>i < nat w. fst c = int i \<and> 0 \<le> snd c \<and> snd c < int (nat h) \<and> \<not> cellAt grid c"
        by blast
    qed
    finally show ?thesis .
  qed
  then show ?thesis by blast
qed

lemma passCount_card:
  "passCount w h grid c = card {n. adjacent c n \<and> inBounds w h n \<and> cellAt grid n}"
proof -
  have "set (filter (cellAt grid) (getCells w h c)) = {n. adjacent c n \<and> inBounds w h n \<and> cellAt grid n}"
    by (auto simp: mem_getCells)
  moreover have "distinct (filter (cellAt grid) (getCells w h c))"
    by (rule distinct_filter[OF distinct_getCells])
  ultimately show ?thesis
    unfolding passCount_def using distinct_card by fastforce
qed

lemma filter_still_walls:
  assumes "wellFormed w h grid" "inBounds w h c"
  shows "filter (\<lambda>cell. \<not> cellAt (setCell grid c) cell) (getCells w h c)
           = filter (\<lambda>cell. \<not> cellAt grid cell) (getCells w h c)"
proof (rule filter_cong[OF refl])
  fix n assume "n \<in> set (getCells w h c)"
  then have "adjacent c n" unfolding mem_getCells by simp
  then have "n \<noteq> c" using adjacent_irrefl by blast
  then show "(\<not> cellAt (setCell grid c) n) = (\<not> cellAt grid n)"
    unfolding cellAt_setCell[OF assms] by simp
qed

lemma findStartEnd_default:
  assumes "\<And>j. cellAt grid (0, int j) \<Longrightarrow> j = 0"
    and "\<And>x. \<not> cellAt grid (x, h - 1)"
  shows "fst (findStartEnd grid h i ((0, 0), (0, 0), sf, ef)) = (0, 0)
       \<and> fst (snd (findStartEnd grid h i ((0, 0), (0, 0), sf, ef))) = (0, 0)"
proof (induction "length grid - i" arbitrary: i sf ef)
  case 0
  then show ?case by simp
next
  case (Suc n)
  then have i: "i < length grid" and n: "n = length grid - (i + 1)" by simp_all
  have s: "(if cellAt grid (0, int i) \<and> \<not> sf then (0, int i) else (0, 0)) = (0, 0)"
    using assms(1)[of i] by auto
  show ?case
  proof (cases "sf \<and> ef")
    case True
    then show ?thesis using i by simp
  next
    case False
    with i Suc.hyps(1)[OF n] show ?thesis
      by (simp add: assms(2) s del: findStartEnd.simps
           add: findStartEnd.simps[of grid h i "(0, 0)" "(0, 0)" sf ef])
  qed
qed


lemma mazeGrid_height_0:
  "mazeGrid w 0 rng = Some (setCell (replicate (nat w) []) (firstCell w 0 rng))"
proof -
  have "getCells w 0 c = []" for c
    unfolding getCells_def by (simp add: filter_empty_conv)
  then show ?thesis
    unfolding mazeGrid_def by (subst mazeLoop.simps) simp
qed

lemma cellAt_height_0:
  assumes "0 \<le> a" and "cellAt (setCell (replicate (nat w) []) (a, 0)) c"
  shows "c = (a, 0)"
proof -
  let ?g = "(replicate (nat w) []) :: Grid"
  have s: "setCell ?g (a, 0) = ?g[nat a := [True]]"
  proof (cases "nat a < nat w")
    case True
    then show ?thesis unfolding setCell_def Let_def by simp
  next
    case False
    then have "nat w \<le> nat a" by (simp only: not_less)
    then have "length ?g \<le> nat a" by (simp only: length_replicate)
    then show ?thesis
      unfolding setCell_def Let_def fst_conv by (simp only: list_update_beyond)
  qed
  from assms(2) have b: "0 \<le> fst c" "fst c < int (nat w)" "0 \<le> snd c"
    and l: "snd c < int (length ((?g[nat a := [True]]) ! nat (fst c)))"
    unfolding s cellAt_def by simp_all
  have x: "nat (fst c) < nat w" using b by linarith
  have "nat (fst c) = nat a \<and> snd c < 1"
  proof (cases "nat (fst c) = nat a")
    case True
    with l x show ?thesis by (simp add: nth_list_update)
  next
    case False
    with l x have "snd c < 0" by (simp add: nth_list_update)
    with b(3) show ?thesis by simp
  qed
  then show ?thesis
    using b assms(1) by (simp add: prod_eq_iff nat_eq_iff)
qed

declare findStartEnd.simps [simp del]

lemma settledD:
  assumes "settled w h P" "inBounds w h c" "\<not> P c" "adjacent c n" "P n"
  obtains n' where "adjacent c n'" "n' \<noteq> n" "P n'"
  using assms unfolding settled_def by blast

lemma settled_outside: "settled w h P \<Longrightarrow> \<not> inBounds w h c \<Longrightarrow> \<not> P c"
  unfolding settled_def by blast

lemma settled_map:
  assumes s: "settled w h P"
    and inv: "\<And>c. f (g c) = c"
    and adj: "\<And>c n. adjacent (f c) (f n) = adjacent c n"
    and inb: "\<And>c. inBounds w h (f c) = inBounds w' h' c"
  shows "settled w' h' (\<lambda>c. P (f c))"
  unfolding settled_def
proof (intro conjI allI impI)
  fix c assume "P (f c)"
  then have "inBounds w h (f c)" using s unfolding settled_def by blast
  then show "inBounds w' h' c" unfolding inb .
next
  fix c n assume a: "inBounds w' h' c \<and> \<not> P (f c) \<and> adjacent c n \<and> P (f n)"
  then have "inBounds w h (f c)" "\<not> P (f c)" "adjacent (f c) (f n)" "P (f n)"
    unfolding inb adj by simp_all
  from settledD[OF s this] obtain m where m: "adjacent (f c) m" "m \<noteq> f n" "P m"
    by blast
  have "adjacent c (g m)" using m(1) adj[of c "g m"] unfolding inv by simp
  moreover have "g m \<noteq> n" using m(2) inv[of m] by auto
  moreover have "P (f (g m))" using m(3) unfolding inv .
  ultimately show "\<exists>n'. adjacent c n' \<and> n' \<noteq> n \<and> P (f n')" by blast
qed

lemma sweep_rows:
  assumes s: "settled w h P" and row0: "\<And>x. \<not> P (x, 0)"
  shows "\<not> P c"
proof -
  have R: "\<forall>x y. y \<le> int k \<longrightarrow> \<not> P (x, y)" for k
  proof (induction k)
    case 0
    show ?case
    proof (intro allI impI)
      fix x y :: int assume "y \<le> int 0"
      then consider "y < 0" | "y = 0" by fastforce
      then show "\<not> P (x, y)"
      proof cases
        case 1
        then have "\<not> inBounds w h (x, y)" unfolding inBounds_def by simp
        then show ?thesis by (rule settled_outside[OF s])
      next
        case 2
        then show ?thesis using row0 by simp
      qed
    qed
  next
    case (Suc k)
    show ?case
    proof (intro allI impI)
      fix x y :: int assume y: "y \<le> int (Suc k)"
      show "\<not> P (x, y)"
      proof (cases "y \<le> int k")
        case True
        then show ?thesis using Suc.IH by blast
      next
        case False
        with y have yk: "y = int k + 1" by simp
        show ?thesis
        proof
          assume p: "P (x, y)"
          then have "inBounds w h (x, y)" using s unfolding settled_def by blast
          then have cb: "inBounds w h (x, int k)"
            unfolding inBounds_def yk by simp
          have nc: "\<not> P (x, int k)" using Suc.IH by blast
          have ad: "adjacent (x, int k) (x, y)" unfolding adjacent_def yk by simp
          from settledD[OF s cb nc ad p] obtain n'
            where n': "adjacent (x, int k) n'" "n' \<noteq> (x, y)" "P n'" by blast
          from n'(1,2) have "snd n' \<le> int k"
            unfolding adjacent_cases yk by auto
          with Suc.IH have "\<not> P (fst n', snd n')" by blast
          with n'(3) show False by simp
        qed
      qed
    qed
  qed
  obtain x y where c: "c = (x, y)" by (cases c)
  have "y \<le> int (nat y)" by simp
  with R[of "nat y"] show ?thesis unfolding c by blast
qed

lemma adjacent_swap: "adjacent (snd c, fst c) (snd n, fst n) = adjacent c n"
  unfolding adjacent_def by auto

lemma sweep_columns:
  assumes s: "settled w h P" and col0: "\<And>y. \<not> P (0, y)"
  shows "\<not> P c"
proof -
  have "settled h w (\<lambda>c. P (snd c, fst c))"
  proof (rule settled_map[OF s, where g = "\<lambda>c. (snd c, fst c)"])
    show "\<And>c. (snd (snd c, fst c), fst (snd c, fst c)) = c" by simp
    show "\<And>c n. adjacent (snd c, fst c) (snd n, fst n) = adjacent c n" by (rule adjacent_swap)
    show "\<And>c. inBounds w h (snd c, fst c) = inBounds h w c" unfolding inBounds_def by auto
  qed
  moreover have "\<not> P (snd (x, 0::int), fst (x, 0::int))" for x
    using col0 by simp
  ultimately have "\<not> P (snd (snd c, fst c), fst (snd c, fst c))"
    by (rule sweep_rows[where P = "\<lambda>c. P (snd c, fst c)"])
  then show ?thesis by simp
qed

lemma corner_triangle:
  assumes s: "settled w h P" and col: "\<And>y. 0 \<le> y \<Longrightarrow> y < m \<Longrightarrow> \<not> P (0, y)"
  shows "0 \<le> x \<Longrightarrow> 0 \<le> y \<Longrightarrow> x + y < m \<Longrightarrow> \<not> P (x, y)"
proof -
  have U: "\<forall>x y. 0 \<le> x \<and> x \<le> int j \<and> 0 \<le> y \<and> x + y < m \<longrightarrow> \<not> P (x, y)" for j
  proof (induction j)
    case 0
    show ?case using col by auto
  next
    case (Suc j)
    show ?case
    proof (intro allI impI)
      fix x y :: int assume a: "0 \<le> x \<and> x \<le> int (Suc j) \<and> 0 \<le> y \<and> x + y < m"
      show "\<not> P (x, y)"
      proof (cases "x \<le> int j")
        case True
        with a Suc.IH show ?thesis by blast
      next
        case False
        with a have xj: "x = int j + 1" by simp
        show ?thesis
        proof
          assume p: "P (x, y)"
          then have "inBounds w h (x, y)" using s unfolding settled_def by blast
          then have cb: "inBounds w h (int j, y)"
            unfolding inBounds_def xj by simp
          have nc: "\<not> P (int j, y)" using Suc.IH a xj by simp
          have ad: "adjacent (int j, y) (x, y)" unfolding adjacent_def xj by simp
          from settledD[OF s cb nc ad p] obtain n'
            where n': "adjacent (int j, y) n'" "n' \<noteq> (x, y)" "P n'" by blast
          from n'(1,2) consider "n' = (int j - 1, y)" | "n' = (int j, y + 1)" | "n' = (int j, y - 1)"
            unfolding adjacent_cases xj by auto
          then have "\<not> P n'"
          proof cases
            case 1
            show ?thesis
            proof (cases "j = 0")
              case True
              then have "\<not> inBounds w h n'" unfolding 1 inBounds_def by simp
              then show ?thesis by (rule settled_outside[OF s])
            next
              case False
              then show ?thesis unfolding 1 using Suc.IH a xj by simp
            qed
          next
            case 2
            show ?thesis unfolding 2 using Suc.IH a xj by simp
          next
            case 3
            show ?thesis
            proof (cases "y = 0")
              case True
              then have "\<not> inBounds w h n'" unfolding 3 inBounds_def by simp
              then show ?thesis by (rule settled_outside[OF s])
            next
              case False
              then show ?thesis unfolding 3 using Suc.IH a xj by simp
            qed
          qed
          with n'(3) show False by simp
        qed
      qed
    qed
  qed
  assume "0 \<le> x" "0 \<le> y" "x + y < m"
  moreover have "x \<le> int (nat x)" by simp
  ultimately show "\<not> P (x, y)" using U[of "nat x"] by blast
qed

lemma first_column_passage:
  assumes s: "settled w h P" and p: "P c0" and pos: "0 < w" "0 < h"
  shows "\<exists>y. 0 \<le> y \<and> y < min w h \<and> P (0, y)"
proof (rule ccontr)
  assume "\<not> (\<exists>y. 0 \<le> y \<and> y < min w h \<and> P (0, y))"
  then have col: "\<And>y. 0 \<le> y \<Longrightarrow> y < min w h \<Longrightarrow> \<not> P (0, y)" by blast
  have tri: "\<not> P (x, y)" if "0 \<le> x" "0 \<le> y" "x + y < min w h" for x y
  proof (rule corner_triangle[OF s _ that])
    fix y' :: int assume "0 \<le> y'" "y' < min w h"
    then show "\<not> P (0, y')" by (rule col)
  qed
  have "\<not> P c0"
  proof (cases "w \<le> h")
    case True
    have "\<not> P (x, 0)" for x
    proof (cases "0 \<le> x \<and> x < w")
      case True
      with \<open>w \<le> h\<close> have "0 \<le> x" "(0::int) \<le> 0" "x + 0 < min w h" by linarith+
      then show ?thesis by (rule tri)
    next
      case False
      then have "\<not> inBounds w h (x, 0)" unfolding inBounds_def by auto
      then show ?thesis by (rule settled_outside[OF s])
    qed
    then show ?thesis by (rule sweep_rows[OF s])
  next
    case False
    have "\<not> P (0, y)" for y
    proof (cases "0 \<le> y \<and> y < h")
      case True
      with \<open>\<not> w \<le> h\<close> have "0 \<le> y" "y < min w h" by linarith+
      then show ?thesis by (rule col)
    next
      case False
      then have "\<not> inBounds w h (0, y)" unfolding inBounds_def by auto
      then show ?thesis by (rule settled_outside[OF s])
    qed
    then show ?thesis by (rule sweep_columns[OF s])
  qed
  with p show False by simp
qed

lemma last_row_passage:
  assumes s: "settled w h P" and p: "P c0" and pos: "0 < w" "0 < h"
  shows "\<exists>i. 0 \<le> i \<and> i < min w h \<and> P (w - 1 - i, h - 1)"
proof -
  let ?f = "\<lambda>c :: Coord. (w - 1 - snd c, h - 1 - fst c)"
  let ?g = "\<lambda>c :: Coord. (h - 1 - snd c, w - 1 - fst c)"
  have s': "settled h w (\<lambda>c. P (?f c))"
  proof (rule settled_map[OF s, where g = ?g])
    show "\<And>c. ?f (?g c) = c" by simp
    show "\<And>c n. adjacent (?f c) (?f n) = adjacent c n" unfolding adjacent_def by auto
    show "\<And>c. inBounds w h (?f c) = inBounds h w c" unfolding inBounds_def by auto
  qed
  have "P (?f (?g c0))" using p by simp
  from first_column_passage[OF s', of "?g c0", OF this pos(2) pos(1)]
  obtain y where "0 \<le> y" "y < min h w" "P (w - 1 - y, h - 1)"
    by auto
  then show ?thesis
    by (intro exI[of _ y]) (simp add: min.commute)
qed

lemma last_column_passage:
  assumes s: "settled w h P" and p: "P c0" and pos: "0 < w" "0 < h"
  shows "\<exists>y. P (w - 1, y)"
proof -
  let ?f = "\<lambda>c :: Coord. (w - 1 - fst c, snd c)"
  have s': "settled w h (\<lambda>c. P (?f c))"
  proof (rule settled_map[OF s, where g = ?f])
    show "\<And>c. ?f (?f c) = c" by simp
    show "\<And>c n. adjacent (?f c) (?f n) = adjacent c n" unfolding adjacent_def by auto
    show "\<And>c. inBounds w h (?f c) = inBounds w h c" unfolding inBounds_def by auto
  qed
  have "P (?f (?f c0))" using p by simp
  from first_column_passage[OF s', of "?f c0", OF this pos]
  show ?thesis by auto
qed

lemma findStartEnd_found:
  assumes a: "cellAt grid (0, int a)" "\<And>j. j < a \<Longrightarrow> \<not> cellAt grid (0, int j)" "a < length grid"
    and b: "cellAt grid (int (length grid) - 1 - int b, h - 1)"
      "\<And>j. j < b \<Longrightarrow> \<not> cellAt grid (int (length grid) - 1 - int j, h - 1)" "b < length grid"
  shows "findStartEnd grid h 0 ((0, 0), (0, 0), False, False)
           = ((0, int a), (int (length grid) - 1 - int b, h - 1), True, True)"
proof -
  define S :: "nat \<Rightarrow> Coord \<times> Coord \<times> bool \<times> bool"
    where "S i = (if a < i then (0, int a) else (0, 0),
                         if b < i then (int (length grid) - 1 - int b, h - 1) else (0, 0),
                         a < i, b < i)" for i
  have sa: "cellAt grid (0, int i) \<and> \<not> a < i \<longleftrightarrow> i = a" for i
    using a(1) a(2)[of i] by (cases "i < a") auto
  have sb: "cellAt grid (int (length grid) - 1 - int i, h - 1) \<and> \<not> b < i \<longleftrightarrow> i = b" for i
    using b(1) b(2)[of i] by (cases "i < b") auto
  have main: "findStartEnd grid h i (S i) = S (length grid)" if "i \<le> length grid" for i
    using that
  proof (induction "length grid - i" arbitrary: i)
    case 0
    then have "i = length grid" by simp
    then show ?case unfolding S_def by (simp add: findStartEnd.simps)
  next
    case (Suc n)
    then have i: "i < length grid" and n: "n = length grid - (i + 1)" "i + 1 \<le> length grid"
      by simp_all
    show ?case
    proof (cases "a < i \<and> b < i")
      case True
      then have "S i = S (length grid)" using i unfolding S_def by simp
      moreover have "findStartEnd grid h i (S i) = S i"
        unfolding S_def using True i by (simp add: findStartEnd.simps)
      ultimately show ?thesis by simp
    next
      case False
      have "findStartEnd grid h i (S i) = findStartEnd grid h (i + 1) (S (i + 1))"
      proof -
        have 1: "(if cellAt grid (0, int i) \<and> \<not> a < i then (0, int i)
                  else if a < i then (0, int a) else (0, 0))
                 = (if a < i + 1 then (0, int a) else (0, 0))"
          unfolding sa by auto
        have 2: "(if cellAt grid (int (length grid) - 1 - int i, h - 1) \<and> \<not> b < i
                  then (int (length grid) - 1 - int i, h - 1)
                  else if b < i then (int (length grid) - 1 - int b, h - 1) else (0, 0))
                 = (if b < i + 1 then (int (length grid) - 1 - int b, h - 1) else (0, 0))"
          unfolding sb by auto
        have 3: "(if cellAt grid (0, int i) \<and> \<not> a < i then True else a < i) = (a < i + 1)"
          unfolding sa by auto
        have 4: "(if cellAt grid (int (length grid) - 1 - int i, h - 1) \<and> \<not> b < i
                  then True else b < i) = (b < i + 1)"
          unfolding sb by auto
        show ?thesis
          unfolding S_def
          by (subst findStartEnd.simps) (simp only: i False if_True if_False not_False_eq_True 1 2 3 4)
      qed
      also have "\<dots> = S (length grid)"
        by (rule Suc.hyps(1)[OF n])
      finally show ?thesis .
    qed
  qed
  have "S 0 = ((0, 0), (0, 0), False, False)" unfolding S_def by simp
  moreover have "S (length grid) = ((0, int a), (int (length grid) - 1 - int b, h - 1), True, True)"
    unfolding S_def using a(3) b(3) by simp
  ultimately show ?thesis using main[of 0] by simp
qed

lemma lockstepScan_found:
  assumes a: "cellAt grid (0, int a)" "\<And>j. j < a \<Longrightarrow> \<not> cellAt grid (0, int j)" "int a < h"
    and b: "cellAt grid (w - 1 - int b, h - 1)"
      "\<And>j. j < b \<Longrightarrow> \<not> cellAt grid (w - 1 - int j, h - 1)" "int b < h"
  shows "lockstepScan grid w h 0 ((0, 0), (0, 0), False, False)
           = ((0, int a), (w - 1 - int b, h - 1), True, True)"
proof -
  define S :: "nat \<Rightarrow> Coord \<times> Coord \<times> bool \<times> bool"
    where "S i = (if a < i then (0, int a) else (0, 0),
                  if b < i then (w - 1 - int b, h - 1) else (0, 0),
                  a < i, b < i)" for i
  have sa: "\<not> a < i \<and> cellAt grid (0, int i) \<longleftrightarrow> i = a" for i
    using a(1) a(2)[of i] by (cases "i < a") auto
  have sb: "\<not> b < i \<and> cellAt grid (w - 1 - int i, h - 1) \<longleftrightarrow> i = b" for i
    using b(1) b(2)[of i] by (cases "i < b") auto
  have sa': "a < i \<or> cellAt grid (0, int i) \<longleftrightarrow> a < i + 1" for i
    using sa[of i] by (cases "a < i") auto
  have sb': "b < i \<or> cellAt grid (w - 1 - int i, h - 1) \<longleftrightarrow> b < i + 1" for i
    using sb[of i] by (cases "b < i") auto
  have main: "lockstepScan grid w h i (S i) = S (nat h)" if "i \<le> nat h" for i
    using that
  proof (induction "nat h - i" arbitrary: i)
    case 0
    then have "i = nat h" by simp
    then have "\<not> int i < h" by simp
    then show ?case
      unfolding S_def using \<open>i = nat h\<close> by (subst lockstepScan.simps) simp
  next
    case (Suc n)
    then have i: "int i < h" and n: "n = nat h - (i + 1)" "i + 1 \<le> nat h"
      by simp_all
    show ?case
    proof (cases "a < i \<and> b < i")
      case True
      moreover have "i < nat h" using i by linarith
      ultimately have "S i = S (nat h)" unfolding S_def by simp
      moreover have "lockstepScan grid w h i (S i) = S i"
        unfolding S_def using True by (subst lockstepScan.simps) simp
      ultimately show ?thesis by simp
    next
      case False
      have "lockstepScan grid w h i (S i) = lockstepScan grid w h (i + 1) (S (i + 1))"
      proof -
        have 1: "(if \<not> a < i \<and> cellAt grid (0, int i) then (0, int i)
                  else if a < i then (0, int a) else (0, 0))
                 = (if a < i + 1 then (0, int a) else (0, 0))"
          unfolding sa by auto
        have 2: "(if \<not> b < i \<and> cellAt grid (w - 1 - int i, h - 1)
                  then (w - 1 - int i, h - 1)
                  else if b < i then (w - 1 - int b, h - 1) else (0, 0))
                 = (if b < i + 1 then (w - 1 - int b, h - 1) else (0, 0))"
          unfolding sb by auto
        have c: "\<not> ((a < i \<and> b < i) \<or> \<not> int i < h)"
          using False i by simp
        show ?thesis
          unfolding S_def
          by (subst lockstepScan.simps) (simp only: c if_False 1 2 sa' sb')
      qed
      also have "\<dots> = S (nat h)"
        by (rule Suc.hyps(1)[OF n])
      finally show ?thesis .
    qed
  qed
  have "S 0 = ((0, 0), (0, 0), False, False)" unfolding S_def by simp
  moreover have "a < nat h" "b < nat h" using a(3) b(3) by linarith+
  then have "S (nat h) = ((0, int a), (w - 1 - int b, h - 1), True, True)"
    unfolding S_def by simp
  ultimately show ?thesis using main[of 0] by simp
qed

lemma findStartEnd_start_default:
  assumes "\<And>j. \<not> cellAt grid (0, int j)"
  shows "fst (findStartEnd grid h i (sc, ec, sf, ef)) = sc"
proof (induction "length grid - i" arbitrary: i ec sf ef)
  case 0
  then show ?case by (simp add: findStartEnd.simps)
next
  case (Suc n)
  then have n: "n = length grid - (i + 1)" by simp
  have IH: "fst (findStartEnd grid h (Suc i) (sc, ec', sf', ef')) = sc" for ec' sf' ef'
    using Suc.hyps(1)[OF n, of ec' sf' ef'] by simp
  show ?case
    by (subst findStartEnd.simps) (simp add: assms IH)
qed

lemma findStartEnd_end_default:
  assumes "\<And>x. \<not> cellAt grid (x, h - 1)"
  shows "fst (snd (findStartEnd grid h i (sc, ec, sf, ef))) = ec"
proof (induction "length grid - i" arbitrary: i sc sf ef)
  case 0
  then show ?case by (simp add: findStartEnd.simps)
next
  case (Suc n)
  then have n: "n = length grid - (i + 1)" by simp
  have IH: "fst (snd (findStartEnd grid h (Suc i) (sc', ec, sf', ef'))) = ec" for sc' sf' ef'
    using Suc.hyps(1)[OF n, of sc' sf' ef'] by simp
  show ?case
    by (subst findStartEnd.simps) (simp add: assms IH)
qed

lemma settled_final:
  assumes "mazeInv w h seed (grid, [])"
  shows "settled w h (cellAt grid)"
  unfolding settled_def
proof (intro conjI allI impI)
  from assms have wf: "wellFormed w h grid" unfolding mazeInv_def by simp
  fix c assume "cellAt grid c"
  then show "inBounds w h c" by (rule cellAt_inBounds[OF wf])
next
  from assms have wf: "wellFormed w h grid" unfolding mazeInv_def by simp
  fix c n assume a: "inBounds w h c \<and> \<not> cellAt grid c \<and> adjacent c n \<and> cellAt grid n"
  let ?S = "{n. adjacent c n \<and> inBounds w h n \<and> cellAt grid n}"
  from assms have "\<forall>c. inBounds w h c \<and> \<not> cellAt grid c \<and> passCount w h grid c = 1
                    \<longrightarrow> c \<in> set []"
    unfolding mazeInv_def by simp
  from this[rule_format, of c] a have "passCount w h grid c \<noteq> 1"
    by auto
  then have "card ?S \<noteq> 1" unfolding passCount_card .
  then have "?S \<noteq> {n}" by auto
  moreover have "n \<in> ?S" using a cellAt_inBounds[OF wf] by simp
  ultimately obtain n' where "n' \<in> ?S" "n' \<noteq> n" by blast
  then show "\<exists>n'. adjacent c n' \<and> n' \<noteq> n \<and> cellAt grid n'" by blast
qed

lemma least_index:
  assumes "0 \<le> y" "Q y"
  obtains a where "Q (int a)" "\<And>j. j < a \<Longrightarrow> \<not> Q (int j)" "int a \<le> y"
proof -
  define a where "a = (LEAST j. Q (int j))"
  have q: "Q (int (nat y))" using assms by simp
  have 1: "Q (int a)" unfolding a_def using q by (rule LeastI)
  have 2: "\<not> Q (int j)" if "j < a" for j
    using that not_less_Least unfolding a_def by blast
  have "a \<le> nat y" unfolding a_def using q by (rule Least_le)
  then have 3: "int a \<le> y" using assms(1) by linarith
  from 1 2 3 show ?thesis by (rule that)
qed

section \<open>The claims\<close>

text \<open>
  C1 (selection among equal minima), as the code has it: the \<open>reduce\<close> keeps the
  current item whenever its \<open>fCost\<close> is \<open>\<le>\<close> the running minimum's, so the node picked
  is the LAST member of the open array with minimal \<open>fCost\<close>: it is minimal, and every
  member after it is strictly more expensive.
\<close>

theorem reduceLeastF_last_minimum:
  "\<exists>i < length (first # others).
      reduceLeastF first others = (first # others) ! i
      \<and> (\<forall>j < length (first # others). fCost ((first # others) ! i) \<le> fCost ((first # others) ! j))
      \<and> (\<forall>j < length (first # others). i < j \<longrightarrow>
             fCost ((first # others) ! i) < fCost ((first # others) ! j))"
proof (induction others rule: rev_induct)
  case Nil
  show ?case by (simp add: reduceLeastF_def)
next
  case (snoc a others)
  let ?xs = "first # others"
  from snoc.IH obtain i where i: "i < length ?xs" "reduceLeastF first others = ?xs ! i"
    "\<forall>j < length ?xs. fCost (?xs ! i) \<le> fCost (?xs ! j)"
    "\<forall>j < length ?xs. i < j \<longrightarrow> fCost (?xs ! i) < fCost (?xs ! j)"
    by blast
  have app: "first # others @ [a] = ?xs @ [a]" by simp
  have nth_old: "(?xs @ [a]) ! j = ?xs ! j" if "j < length ?xs" for j
    using that by (simp only: nth_append if_P)
  have nth_new: "(?xs @ [a]) ! length ?xs = a"
    by (simp only: nth_append_length)
  have len: "length (?xs @ [a]) = Suc (length ?xs)" by simp
  show ?case
  proof (cases "fCost a \<le> fCost (?xs ! i)")
    case True
    then have r: "reduceLeastF first (others @ [a]) = a"
      by (simp add: reduceLeastF_snoc leastF_def i(2) fCost_def)
    have "\<forall>j < length (?xs @ [a]). fCost a \<le> fCost ((?xs @ [a]) ! j)"
    proof (intro allI impI)
      fix j assume "j < length (?xs @ [a])"
      then consider "j < length ?xs" | "j = length ?xs" using len by linarith
      then show "fCost a \<le> fCost ((?xs @ [a]) ! j)"
      proof cases
        case 1
        with i(3) have "fCost (?xs ! i) \<le> fCost (?xs ! j)" by blast
        with True show ?thesis unfolding nth_old[OF 1] by linarith
      next
        case 2
        show ?thesis unfolding 2 nth_new by simp
      qed
    qed
    then show ?thesis
      unfolding app
      by (intro exI[of _ "length ?xs"]) (simp only: len r nth_new, simp)
  next
    case False
    then have r: "reduceLeastF first (others @ [a]) = ?xs ! i"
      by (simp add: reduceLeastF_snoc leastF_def i(2) fCost_def)
    have le: "\<forall>j < length (?xs @ [a]). fCost (?xs ! i) \<le> fCost ((?xs @ [a]) ! j)"
    proof (intro allI impI)
      fix j assume "j < length (?xs @ [a])"
      then consider "j < length ?xs" | "j = length ?xs" using len by linarith
      then show "fCost (?xs ! i) \<le> fCost ((?xs @ [a]) ! j)"
      proof cases
        case 1
        with i(3) show ?thesis unfolding nth_old[OF 1] by blast
      next
        case 2
        from False show ?thesis unfolding 2 nth_new by simp
      qed
    qed
    have lt: "\<forall>j < length (?xs @ [a]). i < j \<longrightarrow> fCost (?xs ! i) < fCost ((?xs @ [a]) ! j)"
    proof (intro allI impI)
      fix j assume "j < length (?xs @ [a])" "i < j"
      then consider "j < length ?xs" | "j = length ?xs" using len by linarith
      then show "fCost (?xs ! i) < fCost ((?xs @ [a]) ! j)"
      proof cases
        case 1
        with i(4) \<open>i < j\<close> show ?thesis unfolding nth_old[OF 1] by blast
      next
        case 2
        from False show ?thesis unfolding 2 nth_new by simp
      qed
    qed
    have bound: "i < length (?xs @ [a])" using i(1) len by linarith
    have e: "(?xs @ [a]) ! i = ?xs ! i" by (rule nth_old[OF i(1)])
    show ?thesis
      unfolding app
    proof (intro exI[of _ i] conjI)
      show "i < length (?xs @ [a])" by (rule bound)
      show "reduceLeastF first (others @ [a]) = (?xs @ [a]) ! i" unfolding e by (rule r)
      show "\<forall>j < length (?xs @ [a]). fCost ((?xs @ [a]) ! i) \<le> fCost ((?xs @ [a]) ! j)"
        unfolding e by (rule le)
      show "\<forall>j < length (?xs @ [a]). i < j \<longrightarrow> fCost ((?xs @ [a]) ! i) < fCost ((?xs @ [a]) ! j)"
        unfolding e by (rule lt)
    qed
  qed
qed

theorem reduceLeastF_last_minimum_witness:
  "reduceLeastF (Node 0 1 10 30 None) [Node 1 0 10 30 None] = Node 1 0 10 30 None"
proof -
  let ?a = "Node 0 1 10 30 None" and ?b = "Node 1 0 10 30 None"
  from reduceLeastF_last_minimum[of ?a "[?b]"]
  obtain i where i: "i < length [?a, ?b]" "reduceLeastF ?a [?b] = [?a, ?b] ! i"
    "\<forall>j < length [?a, ?b]. i < j \<longrightarrow> fCost ([?a, ?b] ! i) < fCost ([?a, ?b] ! j)"
    by blast
  have "i \<noteq> 0"
  proof
    assume "i = 0"
    with i(3)[rule_format, of 1] have "fCost ([?a, ?b] ! 0) < fCost ([?a, ?b] ! 1)" by simp
    then show False by (simp add: fCost_def)
  qed
  with i(1) have "i = 1" by simp
  with i(2) show ?thesis by simp
qed

text \<open>
  The claim as stated fails. On the 3 by 3 grid without diagonal movement the open array
  after the first pass holds \<open>(0, 1)\<close> and \<open>(1, 0)\<close>, in this order and both with
  \<open>fCost\<close> 40; the second pass picks \<open>(1, 0)\<close>, the one with the larger index, and it is
  the second node of the closed array.
\<close>

theorem first_minimum_not_popped:
  "foldl (relax (grid3 False) (startNode (grid3 False)))
      (snd (popLeast (startNode (grid3 False)) []))
      (getValidNeighbors (grid3 False) (startNode (grid3 False)) [startNode (grid3 False)])
     = [Node 0 1 10 30 (Some (Node 0 0 0 40 None)), Node 1 0 10 30 (Some (Node 0 0 0 40 None))]
   \<and> fCost (Node 0 1 10 30 (Some (Node 0 0 0 40 None)))
       = fCost (Node 1 0 10 30 (Some (Node 0 0 0 40 None)))
   \<and> fst (popLeast (Node 0 1 10 30 (Some (Node 0 0 0 40 None)))
              [Node 1 0 10 30 (Some (Node 0 0 0 40 None))])
       = Node 1 0 10 30 (Some (Node 0 0 0 40 None))
   \<and> map coordOf (fst (snd (astarLoop (grid3 False) [startNode (grid3 False)] [] 0 [])))
       = [(0, 0), (1, 0), (2, 0), (2, 1), (2, 2)]"
  by code_simp

text \<open>
  C3 (no path). When the end node is not in the closed array after the loop, the path
  set is empty, but \<open>setDistance\<close> is not called and \<open>reset\<close> leaves \<open>distance\<close> alone:
  the cost shown is the one of the last search that found a path. On the 5 by 5 grid a
  first search finds the end \<open>(1, 1)\<close> at cost 14; the end is then moved to \<open>(4, 4)\<close>
  behind three walls, and the second search leaves the path empty and the cost at 14.
\<close>

theorem stale_distance_after_failed_search:
  "distance (startPathFind room5) = 14
   \<and> find (\<lambda>node. node_x node = 4 \<and> node_y node = 4)
        (fst (snd (astarLoop ((startPathFind room5)\<lparr>end' := (4, 4), walls := [(3, 3), (3, 4), (4, 3)]\<rparr>)
                     [startNode ((startPathFind room5)\<lparr>end' := (4, 4), walls := [(3, 3), (3, 4), (4, 3)]\<rparr>)]
                     [] 0 []))) = None
   \<and> nodePath (startPathFind
        ((startPathFind room5)\<lparr>end' := (4, 4), walls := [(3, 3), (3, 4), (4, 3)]\<rparr>)) = []
   \<and> distance (startPathFind
        ((startPathFind room5)\<lparr>end' := (4, 4), walls := [(3, 3), (3, 4), (4, 3)]\<rparr>)) = 14"
  by code_simp


text \<open>
  C4 (relaxation of a neighbour). The node built for a neighbour has the current node's
  \<open>gCost\<close> plus 14 when both coordinates change and plus 10 otherwise, the heuristic
  of the movement mode, and the current node as its parent. It is appended when no open
  node has the neighbour's coordinate; otherwise it replaces the first open node with
  that coordinate exactly when its \<open>gCost\<close> is \<open>\<le>\<close> the recorded one, so that on equal cost
  the parent is overwritten. For a valid neighbour both coordinates change exactly when
  the offset is one of the four diagonal ones.
\<close>

theorem relax_inserts_or_replaces:
  assumes "upd = Node (fst nb) (snd nb)
                   (gCost cur + (if fst nb \<noteq> node_x cur \<and> snd nb \<noteq> node_y cur
                                 then 14 else 10))
                   (if diagonalMovement s then getDiagonalDistance s nb
                    else getManhattanDistance s nb)
                   (Some cur)"
  shows "((\<forall>n \<in> set ns. coordOf n \<noteq> nb) \<longrightarrow> relax s cur ns nb = ns @ [upd])
       \<and> (\<forall>i. i < length ns \<and> coordOf (ns ! i) = nb \<and> (\<forall>j < i. coordOf (ns ! j) \<noteq> nb) \<longrightarrow>
             relax s cur ns nb = (if gCost upd \<le> gCost (ns ! i) then ns[i := upd] else ns)
             \<and> (gCost upd = gCost (ns ! i) \<longrightarrow> parent (relax s cur ns nb ! i) = Some cur))
       \<and> (nb \<in> set (getValidNeighbors s cur cls) \<longrightarrow>
             ((fst nb \<noteq> node_x cur \<and> snd nb \<noteq> node_y cur)
                \<longleftrightarrow> (fst nb - node_x cur, snd nb - node_y cur) \<in> set diagonal))"
proof -
  have upd: "upd = updatedNeighbor s cur nb"
    unfolding assms(1) updatedNeighbor_def D2_eq D_def ..
  show ?thesis
  proof (intro conjI allI impI)
    assume "\<forall>n \<in> set ns. coordOf n \<noteq> nb"
    from relax_None[OF findIndex_None_coord[OF this]] show "relax s cur ns nb = ns @ [upd]"
      unfolding upd .
  next
    fix i assume a: "i < length ns \<and> coordOf (ns ! i) = nb \<and> (\<forall>j < i. coordOf (ns ! j) \<noteq> nb)"
    then have "findIndex (\<lambda>node. node_x node = fst nb \<and> node_y node = snd nb) ns = Some i"
      by (intro findIndex_first_coord) auto
    from relax_Some[OF this]
    show r: "relax s cur ns nb = (if gCost upd \<le> gCost (ns ! i) then ns[i := upd] else ns)"
      unfolding upd .
    assume "gCost upd = gCost (ns ! i)"
    with r a show "parent (relax s cur ns nb ! i) = Some cur"
      by (simp add: assms(1))
  next
    assume "nb \<in> set (getValidNeighbors s cur cls)"
    then show "(fst nb \<noteq> node_x cur \<and> snd nb \<noteq> node_y cur)
                \<longleftrightarrow> (fst nb - node_x cur, snd nb - node_y cur) \<in> set diagonal"
      by (rule diagonal_move_iff)
  qed
qed

theorem relax_inserts_or_replaces_witness:
  "relax (grid3 False) (Node 1 0 10 30 None) [Node 1 1 20 20 (Some (Node 0 1 10 30 None))] (1, 1)
     = [Node 1 1 20 20 (Some (Node 1 0 10 30 None))]
   \<and> relax (grid3 False) (Node 1 0 10 30 None) [] (1, 1)
     = [Node 1 1 20 20 (Some (Node 1 0 10 30 None))]"
proof -
  let ?cur = "Node 1 0 10 30 None"
  let ?upd = "Node 1 1 20 20 (Some ?cur)"
  let ?ns = "[Node 1 1 20 20 (Some (Node 0 1 10 30 None))]"
  have u: "?upd = Node (fst (1, 1)) (snd (1, 1))
                   (gCost ?cur + (if fst (1, 1) \<noteq> node_x ?cur \<and> snd (1, 1) \<noteq> node_y ?cur
                                 then 14 else 10))
                   (if diagonalMovement (grid3 False) then getDiagonalDistance (grid3 False) (1, 1)
                    else getManhattanDistance (grid3 False) (1, 1))
                   (Some ?cur)"
    by (simp add: grid3_def getManhattanDistance_def D_def)
  have v: "(1, 1) \<in> set (getValidNeighbors (grid3 False) ?cur [?cur])"
    by code_simp
  have i: "0 < length ?ns \<and> coordOf (?ns ! 0) = (1, 1) \<and> (\<forall>j < 0. coordOf (?ns ! j) \<noteq> (1, 1))"
    by (simp add: coordOf_def)
  have e: "\<forall>n \<in> set []. coordOf n \<noteq> (1, 1)"
    by simp
  have d: "\<not> (fst (1, 1) \<noteq> node_x ?cur \<and> snd (1, 1) \<noteq> node_y ?cur)"
    by simp
  note T = relax_inserts_or_replaces[OF u, where cls = "[?cur]"]
  from T[where ns = ?ns, THEN conjunct2, THEN conjunct2, THEN mp, OF v] d
  have "(fst (1, 1) - node_x ?cur, snd (1, 1) - node_y ?cur) \<notin> set diagonal"
    by simp
  moreover from T[where ns = ?ns, THEN conjunct2, THEN conjunct1, THEN spec, THEN mp, OF i]
  have "relax (grid3 False) ?cur ?ns (1, 1) = (if gCost ?upd \<le> gCost (?ns ! 0) then ?ns[0 := ?upd] else ?ns)"
    by (rule conjunct1)
  moreover from T[where ns = "[]", THEN conjunct1, THEN mp, OF e]
  have "relax (grid3 False) ?cur [] (1, 1) = [] @ [?upd]" .
  ultimately show ?thesis by simp
qed


text \<open>
  C5 (heuristic). The start node, every node that the relaxation of a neighbour puts
  into the open array, and so every node of the open and the closed array when the loop
  of \<open>startPathFind\<close> ends, has as \<open>hCost\<close> the Diagonal formula when \<open>diagonalMovement\<close>
  is set and the Manhattan formula when it is not, with \<open>D = 10\<close> and
  \<open>D2 = round (sqrt (10\<^sup>2 + 10\<^sup>2)) = 14\<close>; the state has no other switch for the heuristic.
\<close>

theorem hCost_is_coupled_heuristic:
  assumes "n = startNode s
           \<or> (n \<in> set (relax s cur ns nb) \<and> n \<notin> set ns)
           \<or> n \<in> set (fst (astarLoop s [startNode s] [] 0 []))
                   \<union> set (fst (snd (astarLoop s [startNode s] [] 0 [])))"
  shows "hCost n =
           (if diagonalMovement s
            then 10 * (\<bar>node_x n - fst (end' s)\<bar> + \<bar>node_y n - snd (end' s)\<bar>)
                 + (14 - 2 * 10) * min \<bar>node_x n - fst (end' s)\<bar> \<bar>node_y n - snd (end' s)\<bar>
            else 10 * (\<bar>node_x n - fst (end' s)\<bar> + \<bar>node_y n - snd (end' s)\<bar>))
         \<and> D = 10 \<and> D2 = 14 \<and> D2 = round (sqrt (10\<^sup>2 + 10\<^sup>2))"
proof -
  have loop: "\<forall>n \<in> set (fst (astarLoop s [startNode s] [] 0 []))
                 \<union> set (fst (snd (astarLoop s [startNode s] [] 0 []))). hFormula s n"
  proof (rule hFormula_astarLoop)
    show "\<forall>n \<in> set [startNode s] \<union> set []. hFormula s n"
      by (simp add: hFormula_startNode)
  qed
  from assms have "hFormula s n"
  proof (elim disjE conjE)
    assume "n = startNode s"
    then show ?thesis by (simp add: hFormula_startNode)
  next
    assume "n \<in> set (relax s cur ns nb)" "n \<notin> set ns"
    with set_relax_subset[of s cur ns nb] have "n = updatedNeighbor s cur nb" by blast
    then show ?thesis by (simp add: hFormula_updatedNeighbor)
  next
    assume "n \<in> set (fst (astarLoop s [startNode s] [] 0 []))
                   \<union> set (fst (snd (astarLoop s [startNode s] [] 0 [])))"
    with loop show ?thesis by blast
  qed
  moreover have "D2 = round (sqrt (10\<^sup>2 + 10\<^sup>2))"
    by (simp add: D2_def D_def)
  ultimately show ?thesis
    by (simp add: hFormula_def Let_def D2_eq D_def)
qed

theorem hCost_is_coupled_heuristic_witness:
  "hCost (Node 1 1 14 14 (Some (Node 0 0 0 28 None))) = 10 * (1 + 1) + (14 - 2 * 10) * min 1 1
   \<and> hCost (Node 1 0 10 30 (Some (Node 0 0 0 40 None))) = 10 * (1 + 2)"
proof -
  have a: "Node 1 1 14 14 (Some (Node 0 0 0 28 None))
        \<in> set (fst (astarLoop (grid3 True) [startNode (grid3 True)] [] 0 []))
             \<union> set (fst (snd (astarLoop (grid3 True) [startNode (grid3 True)] [] 0 [])))"
    by code_simp
  have b: "Node 1 0 10 30 (Some (Node 0 0 0 40 None))
        \<in> set (fst (astarLoop (grid3 False) [startNode (grid3 False)] [] 0 []))
             \<union> set (fst (snd (astarLoop (grid3 False) [startNode (grid3 False)] [] 0 [])))"
    by code_simp
  show ?thesis
    using hCost_is_coupled_heuristic[OF disjI2, OF disjI2, OF a]
      hCost_is_coupled_heuristic[OF disjI2, OF disjI2, OF b]
    by (simp add: grid3_def)
qed


text \<open>
  C6 (valid neighbours). A coordinate is returned by \<open>getValidNeighbors\<close> if and only if
  its offset from the node is one of the four straight ones \<open>(-1, 0)\<close>, \<open>(0, 1)\<close>,
  \<open>(1, 0)\<close>, \<open>(0, -1)\<close>, or, when \<open>diagonalMovement\<close> is set, one of the four diagonal
  ones \<open>(-1, 1)\<close>, \<open>(-1, -1)\<close>, \<open>(1, 1)\<close>, \<open>(1, -1)\<close>, and it is within the bounds, not
  a wall and not in the closed array; the result lists the candidates that pass, the
  straight ones first, in this order. In particular a diagonal neighbour that passes
  these tests is returned also when the two cells between it and the node are both walls.
\<close>

theorem valid_neighbor_iff_no_corner_blocking:
  "(nb \<in> set (getValidNeighbors s node cls) \<longleftrightarrow>
      (fst nb - node_x node, snd nb - node_y node)
         \<in> {(-1, 0), (0, 1), (1, 0), (0, -1)}
             \<union> (if diagonalMovement s then {(-1, 1), (-1, -1), (1, 1), (1, -1)} else {})
      \<and> 0 \<le> fst nb \<and> fst nb < width s \<and> 0 \<le> snd nb \<and> snd nb < height s
      \<and> \<not> isWallTile s (fst nb) (snd nb) \<and> \<not> isClosedNode nb cls)
   \<and> getValidNeighbors s node cls
       = filter (\<lambda>nb. 0 \<le> fst nb \<and> fst nb < width s \<and> 0 \<le> snd nb \<and> snd nb < height s
                      \<and> \<not> isWallTile s (fst nb) (snd nb) \<and> \<not> isClosedNode nb cls)
           ([(node_x node - 1, node_y node), (node_x node, node_y node + 1),
             (node_x node + 1, node_y node), (node_x node, node_y node - 1)]
            @ (if diagonalMovement s
               then [(node_x node - 1, node_y node + 1), (node_x node - 1, node_y node - 1),
                     (node_x node + 1, node_y node + 1), (node_x node + 1, node_y node - 1)]
               else []))
   \<and> (diagonalMovement s \<and> (dx, dy) \<in> {(-1, 1), (-1, -1), (1, 1), (1, -1)}
        \<and> isWallTile s (node_x node + dx) (node_y node) \<and> isWallTile s (node_x node) (node_y node + dy)
        \<and> 0 \<le> node_x node + dx \<and> node_x node + dx < width s
        \<and> 0 \<le> node_y node + dy \<and> node_y node + dy < height s
        \<and> \<not> isWallTile s (node_x node + dx) (node_y node + dy)
        \<and> \<not> isClosedNode (node_x node + dx, node_y node + dy) cls
      \<longrightarrow> (node_x node + dx, node_y node + dy) \<in> set (getValidNeighbors s node cls))"
proof (intro conjI)
  show "nb \<in> set (getValidNeighbors s node cls) \<longleftrightarrow>
      (fst nb - node_x node, snd nb - node_y node)
         \<in> {(-1, 0), (0, 1), (1, 0), (0, -1)}
             \<union> (if diagonalMovement s then {(-1, 1), (-1, -1), (1, 1), (1, -1)} else {})
      \<and> 0 \<le> fst nb \<and> fst nb < width s \<and> 0 \<le> snd nb \<and> snd nb < height s
      \<and> \<not> isWallTile s (fst nb) (snd nb) \<and> \<not> isClosedNode nb cls"
    unfolding getValidNeighbors_iff set_straight set_diagonal ..
next
  show "getValidNeighbors s node cls
       = filter (\<lambda>nb. 0 \<le> fst nb \<and> fst nb < width s \<and> 0 \<le> snd nb \<and> snd nb < height s
                      \<and> \<not> isWallTile s (fst nb) (snd nb) \<and> \<not> isClosedNode nb cls)
           ([(node_x node - 1, node_y node), (node_x node, node_y node + 1),
             (node_x node + 1, node_y node), (node_x node, node_y node - 1)]
            @ (if diagonalMovement s
               then [(node_x node - 1, node_y node + 1), (node_x node - 1, node_y node - 1),
                     (node_x node + 1, node_y node + 1), (node_x node + 1, node_y node - 1)]
               else []))"
  proof -
    have m: "map (\<lambda>direction. (fst direction + node_x node, snd direction + node_y node))
               (if diagonalMovement s then straight @ diagonal else straight)
             = [(node_x node - 1, node_y node), (node_x node, node_y node + 1),
                (node_x node + 1, node_y node), (node_x node, node_y node - 1)]
               @ (if diagonalMovement s
                  then [(node_x node - 1, node_y node + 1), (node_x node - 1, node_y node - 1),
                        (node_x node + 1, node_y node + 1), (node_x node + 1, node_y node - 1)]
                  else [])"
      by (simp add: straight_def diagonal_def)
    show ?thesis
      unfolding getValidNeighbors_def Let_def m by (rule filter_cong[OF refl]) simp
  qed
next
  show "diagonalMovement s \<and> (dx, dy) \<in> {(-1, 1), (-1, -1), (1, 1), (1, -1)}
        \<and> isWallTile s (node_x node + dx) (node_y node) \<and> isWallTile s (node_x node) (node_y node + dy)
        \<and> 0 \<le> node_x node + dx \<and> node_x node + dx < width s
        \<and> 0 \<le> node_y node + dy \<and> node_y node + dy < height s
        \<and> \<not> isWallTile s (node_x node + dx) (node_y node + dy)
        \<and> \<not> isClosedNode (node_x node + dx, node_y node + dy) cls
      \<longrightarrow> (node_x node + dx, node_y node + dy) \<in> set (getValidNeighbors s node cls)"
    unfolding getValidNeighbors_iff set_straight set_diagonal by auto
qed

theorem valid_neighbor_iff_no_corner_blocking_witness:
  "isWallTile cornered 1 0 \<and> isWallTile cornered 0 1
   \<and> getValidNeighbors cornered (startNode cornered) [startNode cornered] = [(1, 1)]
   \<and> getValidNeighbors (grid3 True) (Node 1 1 14 14 (Some (startNode (grid3 True))))
        [startNode (grid3 True), Node 1 1 14 14 (Some (startNode (grid3 True)))]
       = [(0, 1), (1, 2), (2, 1), (1, 0), (0, 2), (2, 2), (2, 0)]
   \<and> getValidNeighbors (grid3 False) (Node 1 1 20 20 None) [startNode (grid3 False)]
       = [(0, 1), (1, 2), (2, 1), (1, 0)]
   \<and> (0, 1) \<in> set (getValidNeighbors (grid3 False) (Node 1 1 20 20 None) [startNode (grid3 False)])
   \<and> (0, 0) \<notin> set (getValidNeighbors (grid3 True) (Node 1 1 14 14 (Some (startNode (grid3 True))))
        [startNode (grid3 True), Node 1 1 14 14 (Some (startNode (grid3 True)))])"
proof -
  have n: "node_x (startNode cornered) = 0" "node_y (startNode cornered) = 0"
    "startNode (grid3 True) = Node 0 0 0 28 None" "startNode (grid3 False) = Node 0 0 0 40 None"
    by (simp_all add: startNode_def cornered_def grid3_def getDiagonalDistance_def
        getManhattanDistance_def D_def D2_eq)
  have w: "isWallTile cornered x y \<longleftrightarrow> (x, y) = (1, 0) \<or> (x, y) = (0, 1)"
    "\<not> isWallTile (grid3 d) x y" for x y d
    by (auto simp: isWallTile_def cornered_def grid3_def)
  have c: "isClosedNode nb [startNode cornered] \<longleftrightarrow> nb = (0, 0)"
    "isClosedNode nb [Node 0 0 0 40 None] \<longleftrightarrow> nb = (0, 0)"
    "isClosedNode nb [Node 0 0 0 28 None, Node 1 1 14 14 (Some (Node 0 0 0 28 None))]
       \<longleftrightarrow> nb = (0, 0) \<or> nb = (1, 1)" for nb
    by (auto simp: isClosedNode_def n prod_eq_iff)
  have d: "diagonalMovement cornered" "width cornered = 3" "height cornered = 3"
    "diagonalMovement (grid3 b) = b" "width (grid3 b) = 3" "height (grid3 b) = 3" for b
    by (simp_all add: cornered_def grid3_def)
  note T1 = valid_neighbor_iff_no_corner_blocking[of _ cornered "startNode cornered"
      "[startNode cornered]", THEN conjunct2, THEN conjunct1]
  note T2 = valid_neighbor_iff_no_corner_blocking[of _ "grid3 True"
      "Node 1 1 14 14 (Some (startNode (grid3 True)))"
      "[startNode (grid3 True), Node 1 1 14 14 (Some (startNode (grid3 True)))]",
      THEN conjunct2, THEN conjunct1]
  note T3 = valid_neighbor_iff_no_corner_blocking[of _ "grid3 False" "Node 1 1 20 20 None"
      "[startNode (grid3 False)]", THEN conjunct2, THEN conjunct1]
  have 1: "getValidNeighbors cornered (startNode cornered) [startNode cornered] = [(1, 1)]"
    unfolding T1 by (simp add: n w c d)
  have 2: "getValidNeighbors (grid3 True) (Node 1 1 14 14 (Some (startNode (grid3 True))))
        [startNode (grid3 True), Node 1 1 14 14 (Some (startNode (grid3 True)))]
       = [(0, 1), (1, 2), (2, 1), (1, 0), (0, 2), (2, 2), (2, 0)]"
    unfolding T2 by (simp add: n w c d)
  have 3: "getValidNeighbors (grid3 False) (Node 1 1 20 20 None) [startNode (grid3 False)]
       = [(0, 1), (1, 2), (2, 1), (1, 0)]"
    unfolding T3 by (simp add: n w c d)
  show ?thesis
    unfolding 1 2 3 by (simp add: w)
qed



text \<open>
  C10 (worked scenario). On the 3 by 3 grid without walls, from \<open>(0, 0)\<close> to \<open>(2, 2)\<close>,
  whatever the display state was before: without diagonal movement the path has 5
  coordinates and the cost is 40; with it the path is \<open>(0, 0), (1, 1), (2, 2)\<close> and the
  cost is \<open>2 * D2 = 28\<close>.
\<close>

theorem worked_scenario_3x3:
  "length (nodePath (startPathFind
      \<lparr>width = 3, height = 3, start = (0, 0), end' = (2, 2), walls = [],
        openNodes = ons, closedNodes = cns, nodePath = np, diagonalMovement = False,
        iterations = it, distance = d0\<rparr>)) = 5
   \<and> distance (startPathFind
      \<lparr>width = 3, height = 3, start = (0, 0), end' = (2, 2), walls = [],
        openNodes = ons, closedNodes = cns, nodePath = np, diagonalMovement = False,
        iterations = it, distance = d0\<rparr>) = 40
   \<and> nodePath (startPathFind
      \<lparr>width = 3, height = 3, start = (0, 0), end' = (2, 2), walls = [],
        openNodes = ons, closedNodes = cns, nodePath = np, diagonalMovement = True,
        iterations = it, distance = d0\<rparr>) = [(0, 0), (1, 1), (2, 2)]
   \<and> distance (startPathFind
      \<lparr>width = 3, height = 3, start = (0, 0), end' = (2, 2), walls = [],
        openNodes = ons, closedNodes = cns, nodePath = np, diagonalMovement = True,
        iterations = it, distance = d0\<rparr>) = 2 * D2
   \<and> 2 * D2 = 28"
  by code_simp

text \<open>
  C7 (one pass of the generator's loop). For a grid of the generator's shape and a
  non-empty wall list of cells of the grid, with \<open>cell\<close> the entry at the index drawn:
  the index is within the list, and every index of the list can be drawn; the cell
  becomes a passage if and only if exactly one of its neighbours within the grid is a
  passage, and no other cell changes; the new wall list is the old one without the entry
  at that index, followed, when the cell was converted, by the neighbours of the cell
  within the grid that are walls, in the order of \<open>getCells\<close> and whether or not they are
  in the list already; the loop runs the pass while the list is not empty and returns the
  grid when it is.
\<close>

theorem mazeStep_frontier:
  assumes "wellFormed w h grid" "wallList \<noteq> []" "\<forall>c \<in> set wallList. inBounds w h c"
    and "i = nat (randomIndex r (int (length wallList)))"
    and "cell = wallList ! i"
    and "one = (card {n. adjacent cell n \<and> inBounds w h n \<and> cellAt grid n} = 1)"
  shows "i < length wallList
       \<and> (\<forall>c. cellAt (fst (mazeStep w h r (grid, wallList))) c \<longleftrightarrow> cellAt grid c \<or> (c = cell \<and> one))
       \<and> snd (mazeStep w h r (grid, wallList))
           = take i wallList @ drop (Suc i) wallList
               @ (if one then filter (\<lambda>n. \<not> cellAt grid n) (getCells w h cell) else [])
       \<and> set (getCells w h cell) = {n. adjacent cell n \<and> inBounds w h n}
       \<and> distinct (getCells w h cell)
       \<and> (\<forall>j < length wallList. \<exists>r'. nat (randomIndex r' (int (length wallList))) = j)
       \<and> mazeLoop w h rng k (grid, wallList)
           = mazeLoop w h rng (k + 1) (mazeStep w h (rng k) (grid, wallList))
       \<and> mazeLoop w h rng k (grid, []) = Some grid"
proof -
  have i: "i < length wallList"
    unfolding assms(4) by (rule randomIndex_less[OF assms(2)])
  have cb: "inBounds w h cell"
    unfolding assms(5) using assms(3) i by simp
  have one: "one \<longleftrightarrow> passCount w h grid cell = 1"
    unfolding assms(6) passCount_card ..
  have step: "mazeStep w h r (grid, wallList) =
      (if one then setCell grid cell else grid,
       take i wallList @ drop (Suc i) wallList
         @ (if one then filter (\<lambda>n. \<not> cellAt grid n) (getCells w h cell) else []))"
  proof (cases one)
    case True
    with mazeStep_convert[OF assms(2) assms(4), of w h grid] one
    show ?thesis
      unfolding assms(5)[symmetric] filter_still_walls[OF assms(1) cb] by simp
  next
    case False
    with mazeStep_skip[OF assms(4), of w h grid] one
    show ?thesis
      unfolding assms(5)[symmetric] by simp
  qed
  have cells: "\<forall>c. cellAt (fst (mazeStep w h r (grid, wallList))) c
                  \<longleftrightarrow> cellAt grid c \<or> (c = cell \<and> one)"
    unfolding step fst_conv using cellAt_setCell[OF assms(1) cb] by auto
  have any: "\<forall>j < length wallList. \<exists>r'. nat (randomIndex r' (int (length wallList))) = j"
    using randomIndex_any by blast
  have loop: "mazeLoop w h rng k (grid, wallList)
           = mazeLoop w h rng (k + 1) (mazeStep w h (rng k) (grid, wallList))"
    by (subst mazeLoop.simps) (simp add: assms(2))
  have stop: "mazeLoop w h rng k (grid, []) = Some grid"
    by (subst mazeLoop.simps) simp
  have nb: "set (getCells w h cell) = {n. adjacent cell n \<and> inBounds w h n}"
    using mem_getCells by blast
  show ?thesis
    using i cells step nb distinct_getCells any loop stop by simp
qed

theorem mazeStep_frontier_witness:
  "mazeStep 3 3 0 ([[True, False, False], [False, False, False], [False, False, False]],
                   [(0, 1), (1, 0)])
     = ([[True, True, False], [False, False, False], [False, False, False]],
        [(1, 0), (0, 2), (1, 1)])"
proof -
  let ?g = "[[True, False, False], [False, False, False], [False, False, False]]"
  let ?wl = "[(0, 1), (1, 0)] :: Coord list"
  have a: "wellFormed 3 3 ?g" by (simp add: wellFormed_def)
  have b: "?wl \<noteq> []" by simp
  have c: "\<forall>c \<in> set ?wl. inBounds 3 3 c" by (simp add: inBounds_def)
  have d: "0 = nat (randomIndex 0 (int (length ?wl)))" by (simp add: randomIndex_def)
  have e: "(0, 1) = ?wl ! 0" by simp
  have "{n. adjacent (0, 1) n \<and> inBounds 3 3 n \<and> cellAt ?g n} = {(0, 0)}"
  proof -
    have "cellAt ?g n \<longleftrightarrow> n = (0, 0)" for n
    proof
      assume "cellAt ?g n"
      then have "fst n = 0 \<and> snd n = 0"
        unfolding cellAt_def
        by (cases "nat (fst n)"; cases "nat (snd n)") (auto simp: nth_Cons' split: if_splits)
      then show "n = (0, 0)" by (simp add: prod_eq_iff)
    next
      assume "n = (0, 0)"
      then show "cellAt ?g n" by (simp add: cellAt_def)
    qed
    then show ?thesis
      by (auto simp: adjacent_def inBounds_def)
  qed
  then have f: "True = (card {n. adjacent (0, 1) n \<and> inBounds 3 3 n \<and> cellAt ?g n} = 1)"
    by simp
  note T = mazeStep_frontier[OF a b c d e f]
  have s: "snd (mazeStep 3 3 0 (?g, ?wl)) = [(1, 0), (0, 2), (1, 1)]"
    using T[THEN conjunct2, THEN conjunct2, THEN conjunct1]
    by (simp add: getCells_def directions_def cellAt_def)
  have g: "fst (mazeStep 3 3 0 (?g, ?wl)) = [[True, True, False], [False, False, False], [False, False, False]]"
    by code_simp
  show ?thesis
    using s g by (simp add: prod_eq_iff)
qed

text \<open>
  C8 (connectivity). For positive dimensions and every sequence of random draws the
  generator returns a maze, the seed cell is a passage of it, and every cell of the grid
  that is not in the returned wall list is reachable from the seed cell by moves between
  adjacent cells through cells that are not in the wall list.
\<close>

theorem maze_passages_connected:
  assumes "0 < w" "0 < h"
  shows "\<exists>r. mazePrimsAlgorithm w h rng = Some (Inr r)
           \<and> firstCell w h rng \<notin> set (finalWallList r)
           \<and> (\<forall>c. inBounds w h c \<and> c \<notin> set (finalWallList r) \<longrightarrow>
                 reachable (\<lambda>c. inBounds w h c \<and> c \<notin> set (finalWallList r))
                   (firstCell w h rng) c)"
proof -
  from mazeGrid_total[OF assms, of rng] obtain grid
    where g: "mazeGrid w h rng = Some grid" and inv: "mazeInv w h (firstCell w h rng) (grid, [])"
    by blast
  from inv have wf: "wellFormed w h grid" and seed: "cellAt grid (firstCell w h rng)"
    and conn: "\<forall>c. cellAt grid c \<longrightarrow> reachable (cellAt grid) (firstCell w h rng) c"
    unfolding mazeInv_def by simp_all
  define r where "r = \<lparr>finalWallList = collectWalls grid,
      mazeStart = fst (findStartEnd grid h 0 ((0, 0), (0, 0), False, False)),
      mazeEnd = fst (snd (findStartEnd grid h 0 ((0, 0), (0, 0), False, False)))\<rparr>"
  have fc: "0 \<le> fst (firstCell w h rng) \<and> fst (firstCell w h rng) < int (nat w)"
    using firstCell_inBounds[OF assms, of rng] unfolding inBounds_def by simp
  have res: "mazePrimsAlgorithm w h rng = Some (Inr r)"
    unfolding mazePrimsAlgorithm_def r_def Let_def using assms fc by (simp add: g)
  have walls: "set (finalWallList r) = {c. inBounds w h c \<and> \<not> cellAt grid c}"
    unfolding r_def using set_collectWalls[OF wf assms(1)] by simp
  have pass: "inBounds w h c \<and> c \<notin> set (finalWallList r) \<longleftrightarrow> cellAt grid c" for c
    unfolding walls using cellAt_inBounds[OF wf, of c] by blast
  have "reachable (\<lambda>c. inBounds w h c \<and> c \<notin> set (finalWallList r)) (firstCell w h rng) c"
    if "inBounds w h c \<and> c \<notin> set (finalWallList r)" for c
  proof (rule reachable_mono)
    from that have "cellAt grid c" unfolding pass .
    with conn show "reachable (cellAt grid) (firstCell w h rng) c" by blast
    show "\<And>c. cellAt grid c \<Longrightarrow> inBounds w h c \<and> c \<notin> set (finalWallList r)"
      unfolding pass .
  qed
  moreover have "firstCell w h rng \<notin> set (finalWallList r)"
    using seed pass by blast
  ultimately show ?thesis
    using res by blast
qed

theorem maze_passages_connected_witness:
  "mazePrimsAlgorithm 3 3 (\<lambda>k. 0)
     = Some (Inr \<lparr>finalWallList = [(1, 1), (2, 2)], mazeStart = (0, 0), mazeEnd = (1, 2)\<rparr>)
   \<and> reachable (\<lambda>c. inBounds 3 3 c \<and> c \<notin> set [(1, 1), (2, 2)]) (0, 0) (1, 2)"
proof -
  have r: "mazePrimsAlgorithm 3 3 (\<lambda>k. 0)
     = Some (Inr \<lparr>finalWallList = [(1, 1), (2, 2)], mazeStart = (0, 0), mazeEnd = (1, 2)\<rparr>)"
    by code_simp
  have f: "firstCell 3 3 (\<lambda>k. 0) = (0, 0)"
    by (simp add: firstCell_def randomIndex_def)
  have w: "(0::int) < 3" by simp
  let ?P = "\<lambda>c :: Coord. inBounds 3 3 c \<and> c \<notin> set [(1, 1), (2, 2)]"
  from maze_passages_connected[OF w w, of "\<lambda>k. 0"] r f
  have "\<forall>c. ?P c \<longrightarrow> reachable ?P (0, 0) c"
    by simp
  then have "?P (1, 2) \<longrightarrow> reachable ?P (0, 0) (1, 2)"
    by (rule spec)
  then have "reachable ?P (0, 0) (1, 2)"
    by (simp add: inBounds_def)
  with r show ?thesis by simp
qed

text \<open>
  C9 (dimensions), as the code has it: \<open>mazePrimsAlgorithm\<close> checks nothing. With
  \<open>width \<le> 0\<close> the write to the seed cell raises a TypeError; with \<open>width > 0\<close> and
  \<open>height < 0\<close> the allocation of the first row raises a RangeError; with \<open>width > 0\<close>
  and \<open>height = 0\<close> the call returns a result, with start and end both \<open>(0, 0)\<close>.
\<close>

theorem no_dimension_check:
  "(w \<le> 0 \<longrightarrow> mazePrimsAlgorithm w h rng = Some (Inl TypeError))
   \<and> (0 < w \<and> h < 0 \<longrightarrow> mazePrimsAlgorithm w h rng = Some (Inl RangeError))
   \<and> (0 < w \<and> h = 0 \<longrightarrow>
        (\<exists>ws. mazePrimsAlgorithm w h rng
                = Some (Inr \<lparr>finalWallList = ws, mazeStart = (0, 0), mazeEnd = (0, 0)\<rparr>)))"
proof (intro conjI impI)
  assume "w \<le> 0"
  then show "mazePrimsAlgorithm w h rng = Some (Inl TypeError)"
    unfolding mazePrimsAlgorithm_def by simp
next
  assume "0 < w \<and> h < 0"
  then show "mazePrimsAlgorithm w h rng = Some (Inl RangeError)"
    unfolding mazePrimsAlgorithm_def by simp
next
  assume a: "0 < w \<and> h = 0"
  define grid where "grid = setCell (replicate (nat w) []) (firstCell w 0 rng)"
  have fc: "firstCell w 0 rng = (fst (firstCell w 0 rng), 0)"
    unfolding firstCell_def randomIndex_def by simp
  have f0: "0 \<le> fst (firstCell w 0 rng) \<and> fst (firstCell w 0 rng) < int (nat w)"
    using a unfolding firstCell_def randomIndex_def by simp
  have only: "c = firstCell w 0 rng" if "cellAt grid c" for c
    using cellAt_height_0[of "fst (firstCell w 0 rng)" w c] that f0
    unfolding grid_def fc[symmetric] by simp
  have c0: "j = 0" if "cellAt grid (0, int j)" for j
    using only[OF that] fc by (simp add: prod_eq_iff)
  have c1: "\<not> cellAt grid (x, 0 - 1)" for x
    unfolding cellAt_def by simp
  from findStartEnd_default[of grid 0 0 False False, OF c0 c1]
  have "fst (findStartEnd grid 0 0 ((0, 0), (0, 0), False, False)) = (0, 0)
      \<and> fst (snd (findStartEnd grid 0 0 ((0, 0), (0, 0), False, False))) = (0, 0)" .
  then have "mazePrimsAlgorithm w h rng
      = Some (Inr \<lparr>finalWallList = collectWalls grid, mazeStart = (0, 0), mazeEnd = (0, 0)\<rparr>)"
    unfolding mazePrimsAlgorithm_def Let_def using a f0
    by (simp add: mazeGrid_height_0 grid_def del: findStartEnd.simps)
  then show "\<exists>ws. mazePrimsAlgorithm w h rng
                = Some (Inr \<lparr>finalWallList = ws, mazeStart = (0, 0), mazeEnd = (0, 0)\<rparr>)"
    by blast
qed

theorem no_dimension_check_witness:
  "mazePrimsAlgorithm 0 5 (\<lambda>k. k) = Some (Inl TypeError)
   \<and> mazePrimsAlgorithm 5 (- 1) (\<lambda>k. k) = Some (Inl RangeError)
   \<and> (\<exists>ws. mazePrimsAlgorithm 5 0 (\<lambda>k. k)
                = Some (Inr \<lparr>finalWallList = ws, mazeStart = (0, 0), mazeEnd = (0, 0)\<rparr>))"
  using no_dimension_check[of 0 5 "\<lambda>k. k"] no_dimension_check[of 5 "- 1" "\<lambda>k. k"]
    no_dimension_check[of 5 0 "\<lambda>k. k"]
  by simp

text \<open>The claim as stated fails: a call with height 0 is not rejected.\<close>

theorem zero_height_not_rejected:
  "mazePrimsAlgorithm 1 0 (\<lambda>k. 0)
     = Some (Inr \<lparr>finalWallList = [], mazeStart = (0, 0), mazeEnd = (0, 0)\<rparr>)"
  by code_simp

text \<open>
  C2 (start and end). For positive dimensions and every sequence of random draws the
  generator returns a maze whose start and end are the ones the lockstep scan of the
  specification finds (bounded by the height, where the code's loop is bounded by
  \<open>grid.length\<close>, the width): in a generated maze column 0 and row \<open>height - 1\<close> have a
  passage among their first \<open>min width height\<close> cells scanned, so both scans find both
  ends before either bound. The start is the passage \<open>(0, y)\<close> of column 0 with the least
  \<open>y\<close>; the end is the passage \<open>(x, height - 1)\<close> with the greatest \<open>x\<close>; column
  \<open>width - 1\<close> holds a passage as well, so in a generated maze no end point is left at
  its initial value for lack of a passage. On any grid, an end point whose scanned cells
  hold no passage is left at \<open>(0, 0)\<close>.
\<close>

theorem start_end_lockstep_scan:
  assumes "0 < w" "0 < h"
  shows "\<exists>grid r. mazeGrid w h rng = Some grid \<and> mazePrimsAlgorithm w h rng = Some (Inr r)
      \<and> mazeStart r = fst (lockstepScan grid w h 0 ((0, 0), (0, 0), False, False))
      \<and> mazeEnd r = fst (snd (lockstepScan grid w h 0 ((0, 0), (0, 0), False, False)))
      \<and> fst (mazeStart r) = 0 \<and> cellAt grid (mazeStart r)
      \<and> (\<forall>y. cellAt grid (0, y) \<longrightarrow> snd (mazeStart r) \<le> y)
      \<and> snd (mazeEnd r) = h - 1 \<and> cellAt grid (mazeEnd r)
      \<and> (\<forall>x. cellAt grid (x, h - 1) \<longrightarrow> x \<le> fst (mazeEnd r))
      \<and> (\<exists>y. cellAt grid (w - 1, y))
      \<and> (\<forall>g. (\<forall>y. \<not> cellAt g (0, y))
             \<longrightarrow> fst (findStartEnd g h 0 ((0, 0), (0, 0), False, False)) = (0, 0))
      \<and> (\<forall>g. (\<forall>x. \<not> cellAt g (x, h - 1))
             \<longrightarrow> fst (snd (findStartEnd g h 0 ((0, 0), (0, 0), False, False))) = (0, 0))"
proof -
  from mazeGrid_total[OF assms, of rng] obtain grid
    where g: "mazeGrid w h rng = Some grid" and inv: "mazeInv w h (firstCell w h rng) (grid, [])"
    by blast
  from inv have wf: "wellFormed w h grid" and seed: "cellAt grid (firstCell w h rng)"
    unfolding mazeInv_def by simp_all
  have len: "int (length grid) = w"
    using wf assms unfolding wellFormed_def by simp
  note s = settled_final[OF inv]
  from first_column_passage[OF s seed assms] obtain y0
    where y0: "0 \<le> y0" "y0 < min w h" "cellAt grid (0, y0)" by blast
  from least_index[of y0 "\<lambda>y. cellAt grid (0, y)", OF y0(1) y0(3)] obtain a
    where a: "cellAt grid (0, int a)" "\<And>j. j < a \<Longrightarrow> \<not> cellAt grid (0, int j)" "int a \<le> y0"
    by blast
  from last_row_passage[OF s seed assms] obtain i0
    where i0: "0 \<le> i0" "i0 < min w h" "cellAt grid (w - 1 - i0, h - 1)" by blast
  from least_index[of i0 "\<lambda>i. cellAt grid (w - 1 - i, h - 1)", OF i0(1) i0(3)] obtain b
    where b: "cellAt grid (w - 1 - int b, h - 1)"
      "\<And>j. j < b \<Longrightarrow> \<not> cellAt grid (w - 1 - int j, h - 1)" "int b \<le> i0"
    by blast
  have aw: "a < length grid" and bw: "b < length grid"
    using a(3) b(3) y0(2) i0(2) len by linarith+
  have ah: "int a < h" and bh: "int b < h"
    using a(3) b(3) y0(2) i0(2) by linarith+
  have code: "findStartEnd grid h 0 ((0, 0), (0, 0), False, False)
                = ((0, int a), (w - 1 - int b, h - 1), True, True)"
    using findStartEnd_found[of grid a b h] a(1,2) aw b(1,2) bw unfolding len by blast
  have spec: "lockstepScan grid w h 0 ((0, 0), (0, 0), False, False)
                = ((0, int a), (w - 1 - int b, h - 1), True, True)"
    by (rule lockstepScan_found[OF a(1,2) ah b(1,2) bh])
  define r where "r = \<lparr>finalWallList = collectWalls grid,
      mazeStart = (0, int a), mazeEnd = (w - 1 - int b, h - 1)\<rparr>"
  have fc: "0 \<le> fst (firstCell w h rng) \<and> fst (firstCell w h rng) < int (nat w)"
    using firstCell_inBounds[OF assms, of rng] unfolding inBounds_def by simp
  have res: "mazePrimsAlgorithm w h rng = Some (Inr r)"
    unfolding mazePrimsAlgorithm_def r_def Let_def using assms fc by (simp add: g code)
  have smin: "int a \<le> y" if "cellAt grid (0, y)" for y
  proof -
    from cellAt_inBounds[OF wf that] have "0 \<le> y" unfolding inBounds_def by simp
    show ?thesis
    proof (rule ccontr)
      assume "\<not> int a \<le> y"
      then have "nat y < a" using \<open>0 \<le> y\<close> by linarith
      from a(2)[OF this] that \<open>0 \<le> y\<close> show False by simp
    qed
  qed
  have emax: "x \<le> w - 1 - int b" if "cellAt grid (x, h - 1)" for x
  proof -
    from cellAt_inBounds[OF wf that] have xb: "x < w" unfolding inBounds_def by simp
    show ?thesis
    proof (rule ccontr)
      assume "\<not> x \<le> w - 1 - int b"
      then have "nat (w - 1 - x) < b" using xb by linarith
      from b(2)[OF this] that xb show False by simp
    qed
  qed
  have d1: "\<forall>g. (\<forall>y. \<not> cellAt g (0, y))
             \<longrightarrow> fst (findStartEnd g h 0 ((0, 0), (0, 0), False, False)) = (0, 0)"
    using findStartEnd_start_default by blast
  have d2: "\<forall>g. (\<forall>x. \<not> cellAt g (x, h - 1))
             \<longrightarrow> fst (snd (findStartEnd g h 0 ((0, 0), (0, 0), False, False))) = (0, 0)"
    using findStartEnd_end_default by blast
  have "mazeStart r = (0, int a)" "mazeEnd r = (w - 1 - int b, h - 1)"
    unfolding r_def by simp_all
  moreover note last_column_passage[OF s seed assms]
  ultimately show ?thesis
    using g res spec a(1) b(1) smin emax d1 d2
    by (intro exI[of _ grid] exI[of _ r]) simp
qed

theorem start_end_lockstep_scan_witness:
  "mazeGrid 2 4 (\<lambda>k. 7 * k) = Some [[False, True, False, True], [True, True, True, True]]
   \<and> mazePrimsAlgorithm 2 4 (\<lambda>k. 7 * k)
       = Some (Inr \<lparr>finalWallList = [(0, 0), (0, 2)], mazeStart = (0, 1), mazeEnd = (1, 3)\<rparr>)
   \<and> fst (lockstepScan [[False, True, False, True], [True, True, True, True]] 2 4 0
             ((0, 0), (0, 0), False, False)) = (0, 1)
   \<and> fst (snd (lockstepScan [[False, True, False, True], [True, True, True, True]] 2 4 0
             ((0, 0), (0, 0), False, False))) = (1, 3)"
proof -
  have g: "mazeGrid 2 4 (\<lambda>k. 7 * k) = Some [[False, True, False, True], [True, True, True, True]]"
    by code_simp
  have r: "mazePrimsAlgorithm 2 4 (\<lambda>k. 7 * k)
       = Some (Inr \<lparr>finalWallList = [(0, 0), (0, 2)], mazeStart = (0, 1), mazeEnd = (1, 3)\<rparr>)"
    by code_simp
  have w: "(0::int) < 2" and h: "(0::int) < 4" by simp_all
  from start_end_lockstep_scan[OF w h, of "\<lambda>k. 7 * k"] g r
  show ?thesis by auto
qed

text \<open>
  That the two scans agree is owed to the generator: on a grid of one row of two cells
  whose only passage is \<open>(0, 1)\<close>, which no run of the generator yields, the code's loop
  stops after index 0 and leaves the start at \<open>(0, 0)\<close>, where the scan bounded by the
  height finds \<open>(0, 1)\<close>.
\<close>

lemma scans_differ_off_mazes:
  "fst (findStartEnd [[False, True]] 2 0 ((0, 0), (0, 0), False, False)) = (0, 0)
   \<and> fst (lockstepScan [[False, True]] 1 2 0 ((0, 0), (0, 0), False, False)) = (0, 1)"
  by code_simp


end
